theory Spec2Isabelle
  imports Complex_Main "HOL-Library.AList" "HOL-Library.Sublist"
begin

section \<open>Stencil kernels: construction, argument binding, autotuning, accounting\<close>

text \<open>
  A shallow embedding of \<^verbatim>\<open>devito/stencilkernel.py\<close>. Python exceptions are values
  of \<open>error\<close>; a function that may raise returns \<open>error + 'a\<close> with \<open>Inl\<close> for the
  exception. An \<^verbatim>\<open>OrderedDict\<close> is an association list with distinct keys in insertion
  order: \<^verbatim>\<open>d[k] = v\<close> is \<open>AList.update k v d\<close> (the value is replaced in place, a new
  key is appended) and \<^verbatim>\<open>d.get(k)\<close> is \<open>map_of d k\<close>.
\<close>

datatype error =
    RuntimeError       \<comment> \<open>\<^verbatim>\<open>raise RuntimeError("Stencil types mismatch.")\<close>\<close>
  | InvalidArgument    \<comment> \<open>\<^verbatim>\<open>raise InvalidArgument("Shapes must match")\<close>\<close>
  | AssertionError     \<comment> \<open>a failed \<^verbatim>\<open>assert\<close>\<close>
  | KeyError           \<comment> \<open>\<^verbatim>\<open>d[k]\<close> on a missing key\<close>
  | IndexError         \<comment> \<open>\<^verbatim>\<open>xs[i]\<close> out of range\<close>
  | TypeError          \<comment> \<open>\<^verbatim>\<open>reduce\<close> of an empty sequence with no initial value\<close>
  | ValueError         \<comment> \<open>\<^verbatim>\<open>min\<close> or \<^verbatim>\<open>max\<close> of an empty sequence\<close>
  | ZeroDivisionError  \<comment> \<open>division by zero\<close>
  | AttributeError     \<comment> \<open>a keyword value without the attribute read from it\<close>
  | OverflowError      \<comment> \<open>an integer too large to convert to a float\<close>

subsection \<open>The data type of an operator\<close>

text \<open>The numpy element types, with \<^verbatim>\<open>dtype().itemsize\<close>.\<close>

datatype dtype = Float32 | Float64 | Int32 | Int64

fun itemsize :: "dtype \<Rightarrow> int" where
  "itemsize Float32 = 4"
| "itemsize Float64 = 8"
| "itemsize Int32 = 4"
| "itemsize Int64 = 8"

text \<open>
  A stencil after normalisation (\<^verbatim>\<open>indexify\<close>, \<^verbatim>\<open>xreplace\<close>): the element type of the
  function on its left-hand side, \<^verbatim>\<open>s.lhs.base.function.dtype\<close>, and the equation itself,
  of a type \<open>'e\<close> that is compared structurally.
\<close>

record 'e stencil =
  lhs_dtype :: dtype
  equation :: 'e

text \<open>
  \<^verbatim>\<open>_retrieve_dtype\<close>: \<^verbatim>\<open>lhss = set([...])\<close> is the duplicate-free list of the
  left-hand-side types; anything but one element raises.
\<close>

definition retrieve_dtype :: "'e stencil list \<Rightarrow> error + dtype" where
  "retrieve_dtype stencils =
     (let lhss = remdups (map lhs_dtype stencils)
      in if length lhss \<noteq> 1 then Inl RuntimeError else Inr (hd lhss))"

text \<open>
  \<^verbatim>\<open>OperatorBasic.__init__\<close> up to the attribute \<^verbatim>\<open>self.dtype\<close>. Everything after
  line 78 (the symbolic engine, the scheduler, the loop engine, the declarations) is
  the parameter \<open>pipeline\<close>, which receives the retrieved type and the stencils and
  yields the remaining attributes \<open>'r\<close> of the operator, or raises.
\<close>

record 'r built =
  built_dtype :: dtype
  built_rest :: 'r

definition operator_init ::
  "(dtype \<Rightarrow> 'e stencil list \<Rightarrow> error + 'r) \<Rightarrow> 'e stencil list \<Rightarrow> error + 'r built" where
  "operator_init pipeline stencils =
     (case retrieve_dtype stencils of
        Inl e \<Rightarrow> Inl e
      | Inr d \<Rightarrow>
          (case pipeline d stencils of
             Inl e \<Rightarrow> Inl e
           | Inr r \<Rightarrow> Inr \<lparr>built_dtype = d, built_rest = r\<rparr>))"

subsection \<open>The scheduler: redundant expressions of a perfect iteration\<close>

text \<open>
  The nodes of the iteration/expression tree. \<open>'a\<close> is what \<^verbatim>\<open>args_frozen\<close>
  carries of an \<^verbatim>\<open>Iteration\<close> besides its body (dimension, limits, offsets).
\<close>

datatype ('e, 'a) node =
    Expression 'e
  | Iteration "('e, 'a) node list" 'a

fun is_Expression :: "('e, 'a) node \<Rightarrow> bool" where
  "is_Expression (Expression e) = True"
| "is_Expression (Iteration ns a) = False"

text \<open>
  The inner loop of lines 322 to 330, with the set \<^verbatim>\<open>found\<close> and the list
  \<^verbatim>\<open>trimmed\<close> as accumulators.
\<close>

fun trim_loop ::
  "'e set \<Rightarrow> ('e, 'a) node list \<Rightarrow> ('e, 'a) node list \<Rightarrow> ('e, 'a) node list" where
  "trim_loop found trimmed [] = trimmed"
| "trim_loop found trimmed (Expression e # v) =
     (if e \<notin> found then trim_loop (insert e found) (trimmed @ [Expression e]) v
      else trim_loop found trimmed v)"
| "trim_loop found trimmed (Iteration ns a # v) =
     trim_loop found (trimmed @ [Iteration ns a]) v"

definition trimmed_of :: "('e, 'a) node list \<Rightarrow> ('e, 'a) node list" where
  "trimmed_of v = trim_loop {} [] v"

text \<open>
  Lines 317 to 331. \<^verbatim>\<open>FindSections().visit(processed).items()\<close> is the parameter
  \<open>sections\<close>: pairs of a path of nested iterations and the nodes found below it.
  \<^verbatim>\<open>IsPerfectIteration().visit\<close> is the parameter \<open>is_perfect\<close>. The result is the
  replacement map handed to \<^verbatim>\<open>Transformer\<close>; \<^verbatim>\<open>k[-1]\<close> raises on an empty path.
  The source keys the map by node identity, the model by the node's value.
\<close>

fun redundancy_mapper ::
  "(('e, 'a) node \<Rightarrow> bool) \<Rightarrow> (('e, 'a) node \<times> ('e, 'a) node) list \<Rightarrow>
   (('e, 'a) node list \<times> ('e, 'a) node list) list \<Rightarrow>
   error + (('e, 'a) node \<times> ('e, 'a) node) list" where
  "redundancy_mapper is_perfect mapper [] = Inr mapper"
| "redundancy_mapper is_perfect mapper ((k, v) # rest) =
     (if k = [] then Inl IndexError
      else
        (let candidate = last k
         in if \<not> is_perfect candidate then redundancy_mapper is_perfect mapper rest
            else
              (case candidate of
                 Iteration ns a \<Rightarrow>
                   redundancy_mapper is_perfect
                     (AList.update candidate (Iteration (trimmed_of v) a) mapper) rest
               | Expression e \<Rightarrow> Inl AttributeError)))"

subsection \<open>Dimensions, data, parameters and argument values\<close>

text \<open>
  A \<^verbatim>\<open>Dimension\<close> has a name and a size, \<^verbatim>\<open>None\<close> when the dimension is open; a
  \<^verbatim>\<open>BufferedDimension\<close> also has a parent. \<^verbatim>\<open>is_Buffered\<close> and
  \<^verbatim>\<open>isinstance(dim, BufferedDimension)\<close> are the same test.
\<close>

datatype dimension =
    Dimension string "int option"
  | BufferedDimension string "int option" dimension

fun dim_name :: "dimension \<Rightarrow> string" where
  "dim_name (Dimension n s) = n"
| "dim_name (BufferedDimension n s p) = n"

fun dim_size :: "dimension \<Rightarrow> int option" where
  "dim_size (Dimension n s) = s"
| "dim_size (BufferedDimension n s p) = s"

fun is_Buffered :: "dimension \<Rightarrow> bool" where
  "is_Buffered (Dimension n s) = False"
| "is_Buffered (BufferedDimension n s p) = True"

text \<open>\<^verbatim>\<open>d.parent if d.is_Buffered else d\<close>\<close>

fun parent_or_self :: "dimension \<Rightarrow> dimension" where
  "parent_or_self (Dimension n s) = Dimension n s"
| "parent_or_self (BufferedDimension n s p) = p"

text \<open>
  A numpy array is the address of its buffer and its shape; the contents live in the
  machine state below, so that a copy and the original can be told apart.
\<close>

record ndarray =
  buffer :: nat
  nd_shape :: "int list"

text \<open>
  A \<^verbatim>\<open>SymbolicData\<close> object: \<^verbatim>\<open>name\<close>, the declared \<^verbatim>\<open>shape\<close>, \<^verbatim>\<open>indices\<close>
  and \<^verbatim>\<open>data\<close>.
\<close>

record symbolic_data =
  sd_name :: string
  sd_shape :: "int list"
  sd_indices :: "dimension list"
  sd_data :: ndarray

text \<open>
  What an argument mapping or a keyword argument can hold: a \<^verbatim>\<open>SymbolicData\<close>, a
  \<^verbatim>\<open>Dimension\<close>, an array, an integer (a Python \<^verbatim>\<open>bool\<close> is the integer 0 or 1)
  and the pointer to the profiler's struct made by \<^verbatim>\<open>_extra_arguments\<close>.
\<close>

datatype argument =
    Symbolic symbolic_data
  | DimensionArg dimension
  | Array ndarray
  | IntArg int
  | TimerStruct

type_synonym arguments = "(string \<times> argument) list"
type_synonym dim_sizes = "(dimension \<times> int) list"

text \<open>
  The parameters of the operator, and the positional arguments of a call, are
  \<^verbatim>\<open>SymbolicData\<close> or \<^verbatim>\<open>Dimension\<close> objects; both have a \<^verbatim>\<open>name\<close>.
\<close>

datatype parameter = DataParam symbolic_data | DimParam dimension

fun param_name :: "parameter \<Rightarrow> string" where
  "param_name (DataParam f) = sd_name f"
| "param_name (DimParam d) = dim_name d"

fun as_argument :: "parameter \<Rightarrow> argument" where
  "as_argument (DataParam f) = Symbolic f"
| "as_argument (DimParam d) = DimensionArg d"

text \<open>The attribute \<^verbatim>\<open>.shape\<close>, absent on integers, dimensions and the struct pointer.\<close>

fun shape_attr :: "argument \<Rightarrow> int list option" where
  "shape_attr (Symbolic f) = Some (sd_shape f)"
| "shape_attr (Array a) = Some (nd_shape a)"
| "shape_attr (DimensionArg d) = None"
| "shape_attr (IntArg n) = None"
| "shape_attr TimerStruct = None"

fun is_SymbolicData :: "argument \<Rightarrow> bool" where
  "is_SymbolicData (Symbolic f) = True"
| "is_SymbolicData other = False"

text \<open>\<^verbatim>\<open>OrderedDict(pairs)\<close>: a later pair replaces the value of an earlier equal key.\<close>

definition OrderedDict :: "('k \<times> 'v) list \<Rightarrow> ('k \<times> 'v) list" where
  "OrderedDict pairs = foldl (\<lambda>d (k, v). AList.update k v d) [] pairs"

text \<open>\<^verbatim>\<open>d.update(other)\<close>\<close>

definition dict_update :: "('k \<times> 'v) list \<Rightarrow> ('k \<times> 'v) list \<Rightarrow> ('k \<times> 'v) list" where
  "dict_update d other = foldl (\<lambda>d (k, v). AList.update k v d) d other"

text \<open>\<^verbatim>\<open>xs[i]\<close> for an index that is never negative.\<close>

definition getitem :: "'a list \<Rightarrow> nat \<Rightarrow> error + 'a" where
  "getitem xs i = (if i < length xs then Inr (xs ! i) else Inl IndexError)"

subsection \<open>The machine: array buffers and the profiler's timers\<close>

text \<open>
  The state that native execution and \<^verbatim>\<open>numpy\<close> act on: the contents of every
  array buffer, the first address not yet allocated, and \<^verbatim>\<open>profiler.timings\<close> as the
  last run of the native routine left them.
\<close>

record machine =
  memory :: "nat \<Rightarrow> real list"
  brk :: nat
  profiler_timings :: "(string \<times> real) list"

text \<open>\<^verbatim>\<open>v.copy()\<close> of an array: a new buffer with the same contents and shape.\<close>

definition array_copy :: "ndarray \<Rightarrow> machine \<Rightarrow> ndarray \<times> machine" where
  "array_copy a m =
     (a\<lparr>buffer := brk m\<rparr>,
      m\<lparr>memory := (memory m)(brk m := memory m (buffer a)), brk := Suc (brk m)\<rparr>)"

subsection \<open>The operator\<close>

text \<open>
  An \<^verbatim>\<open>Iteration\<close> of the body, as far as this file reads it: its dimension, the flag
  \<^verbatim>\<open>is_Sequential\<close>, and the methods \<^verbatim>\<open>extent(finish=...)\<close> and \<^verbatim>\<open>end(finish)\<close>
  of \<^verbatim>\<open>devito.nodes\<close>, which are parameters here. \<^verbatim>\<open>end\<close> receives whatever
  \<^verbatim>\<open>at_arguments.get\<close> returned.
\<close>

record iteration =
  it_dim :: dimension
  is_Sequential :: bool
  extent :: "int option \<Rightarrow> int"
  iter_end :: "argument option \<Rightarrow> int"

text \<open>
  The \<^verbatim>\<open>value\<close> of a blocking argument of the loop engine: \<^verbatim>\<open>None\<close>, an integer or
  a function of the dimension size.
\<close>

datatype block_value = NoValue | Fixed int | Derive "int \<Rightarrow> int"

text \<open>\<^verbatim>\<open>if i.value:\<close> is Python truthiness: \<^verbatim>\<open>None\<close> and 0 are false.\<close>

fun value_given :: "block_value \<Rightarrow> bool" where
  "value_given NoValue = False"
| "value_given (Fixed v) = (v \<noteq> 0)"
| "value_given (Derive f) = True"

record blocking_arg =
  argument :: dimension
  original_dim :: dimension
  iteration :: iteration
  blk_value :: block_value

text \<open>\<^verbatim>\<open>Profile = namedtuple('Profile', 'timer ops memory')\<close>\<close>

record profile =
  timer :: string
  ops :: int
  memory_accesses :: int

text \<open>\<^verbatim>\<open>options\<close>, a module-level dictionary read at call time.\<close>

record options =
  at_squeezer :: int
  at_blocksize :: "int list"

definition default_options :: options where
  "default_options = \<lparr>at_squeezer = 3, at_blocksize = [8, 16, 24, 32, 40, 64, 128]\<rparr>"

text \<open>
  What an \<^verbatim>\<open>OperatorCore\<close> holds after construction. \<^verbatim>\<open>dle_arguments\<close>,
  \<^verbatim>\<open>has_applied_blocking\<close> and \<^verbatim>\<open>needs_aggressive_autotuning\<close> are read from
  \<^verbatim>\<open>_dle_state\<close>; \<^verbatim>\<open>output_fields\<close> are the names
  \<^verbatim>\<open>i.base.label.name for i in self._dse_state.output_fields\<close>; \<^verbatim>\<open>iterations\<close> is
  \<^verbatim>\<open>FindNodes(Iteration).visit(self.body)\<close>; \<^verbatim>\<open>cfunction\<close> is the compiled native
  routine, called with the values of the argument mapping in order.
\<close>

record operator =
  dtype :: dtype
  parameters :: "parameter list"
  dle_arguments :: "blocking_arg list"
  has_applied_blocking :: bool
  needs_aggressive_autotuning :: bool
  output_fields :: "string list"
  iterations :: "iteration list"
  sections :: "(iteration list \<times> profile) list"
  s_name :: string
  cfunction :: "argument list \<Rightarrow> machine \<Rightarrow> machine"

subsection \<open>Argument binding\<close>

text \<open>
  Lines 128 to 141 of \<^verbatim>\<open>OperatorBasic.arguments\<close>. The keyword arguments are an
  association list with distinct keys.
\<close>

definition initial_arguments :: "operator \<Rightarrow> arguments" where
  "initial_arguments opr = OrderedDict (map (\<lambda>arg. (param_name arg, as_argument arg)) (parameters opr))"

fun override_loop :: "arguments \<Rightarrow> arguments \<Rightarrow> error + arguments" where
  "override_loop [] arguments = Inr arguments"
| "override_loop ((argname, val) # o_vals) arguments =
     (case map_of arguments argname of
        None \<Rightarrow> Inl KeyError
      | Some a \<Rightarrow>
          (case shape_attr a of
             None \<Rightarrow> Inl AttributeError
           | Some declared \<Rightarrow>
               (case shape_attr val of
                  None \<Rightarrow> Inl AttributeError
                | Some given \<Rightarrow>
                    if \<not> declared = given then Inl InvalidArgument
                    else override_loop o_vals (AList.update argname val arguments))))"

definition overrides :: "arguments \<Rightarrow> arguments \<Rightarrow> error + arguments" where
  "overrides kwargs arguments =
     (let r_args = map fst (filter (\<lambda>(f_n, f). is_SymbolicData f) arguments);
          o_vals = OrderedDict (filter (\<lambda>arg. fst arg \<in> set r_args) kwargs)
      in override_loop o_vals arguments)"

text \<open>
  Lines 150 to 166, one dimension of one parameter. \<^verbatim>\<open>shape[i]\<close> is read only on
  the branches that compare or adopt it. A keyword limit is an integer; any other
  value under the name of a dimension is outside the model and is rejected with
  \<open>TypeError\<close>.
\<close>

definition infer_dim ::
  "arguments \<Rightarrow> int list \<Rightarrow> nat \<Rightarrow> dimension \<Rightarrow> dim_sizes \<Rightarrow> error + dim_sizes" where
  "infer_dim kwargs shape i d dim_sizes =
     (if dim_size d = None then
        (case (case map_of kwargs (dim_name d) of
                 None \<Rightarrow> Inr dim_sizes
               | Some (IntArg n) \<Rightarrow> Inr (AList.update d n dim_sizes)
               | Some other \<Rightarrow> Inl TypeError) of
           Inl e \<Rightarrow> Inl e
         | Inr dim_sizes1 \<Rightarrow>
             (case map_of dim_sizes1 d of
                Some limit \<Rightarrow>
                  if \<not> is_Buffered d then
                    (case getitem shape i of
                       Inl e \<Rightarrow> Inl e
                     | Inr s \<Rightarrow> if limit \<le> s then Inr dim_sizes1 else Inl AssertionError)
                  else Inr dim_sizes1
              | None \<Rightarrow>
                  (case getitem shape i of
                     Inl e \<Rightarrow> Inl e
                   | Inr s \<Rightarrow> Inr (AList.update d s dim_sizes1))))
      else if \<not> is_Buffered d then
        (case getitem shape i of
           Inl e \<Rightarrow> Inl e
         | Inr s \<Rightarrow> if dim_size d = Some s then Inr dim_sizes else Inl AssertionError)
      else Inr dim_sizes)"

fun infer_dims ::
  "arguments \<Rightarrow> int list \<Rightarrow> nat \<Rightarrow> dimension list \<Rightarrow> dim_sizes \<Rightarrow> error + dim_sizes" where
  "infer_dims kwargs shape i [] dim_sizes = Inr dim_sizes"
| "infer_dims kwargs shape i (d # dims) dim_sizes =
     (case infer_dim kwargs shape i d dim_sizes of
        Inl e \<Rightarrow> Inl e
      | Inr dim_sizes' \<Rightarrow> infer_dims kwargs shape (Suc i) dims dim_sizes')"

text \<open>
  Lines 144 to 166: the loop over \<^verbatim>\<open>zip(f_args, args)\<close>, with \<^verbatim>\<open>_arg_data\<close> and
  \<^verbatim>\<open>_arg_shape\<close> of \<^verbatim>\<open>OperatorCore\<close> (the array \<^verbatim>\<open>f.data\<close> and its shape).
\<close>

fun symbolic_values :: "argument list \<Rightarrow> symbolic_data list" where
  "symbolic_values [] = []"
| "symbolic_values (Symbolic f # vs) = f # symbolic_values vs"
| "symbolic_values (other # vs) = symbolic_values vs"

fun traverse_positional ::
  "arguments \<Rightarrow> (symbolic_data \<times> parameter) list \<Rightarrow> arguments \<Rightarrow> dim_sizes \<Rightarrow>
   error + arguments \<times> dim_sizes" where
  "traverse_positional kwargs [] arguments dim_sizes = Inr (arguments, dim_sizes)"
| "traverse_positional kwargs ((f, arg) # rest) arguments dim_sizes =
     (case infer_dims kwargs (nd_shape (sd_data f)) 0 (sd_indices f) dim_sizes of
        Inl e \<Rightarrow> Inl e
      | Inr dim_sizes' \<Rightarrow>
          traverse_positional kwargs rest
            (AList.update (param_name arg) (Array (sd_data f)) arguments) dim_sizes')"

text \<open>
  Lines 168 to 172. \<^verbatim>\<open>buf_dims\<close> is computed before the loop; the iteration order of
  the dictionary \<^verbatim>\<open>dim_sizes\<close> is taken to be its insertion order.
\<close>

fun buffered_parents :: "dimension list \<Rightarrow> dim_sizes \<Rightarrow> error + dim_sizes" where
  "buffered_parents [] dim_sizes = Inr dim_sizes"
| "buffered_parents (d # buf_dims) dim_sizes =
     (if parent_or_self d \<notin> fst ` set dim_sizes then
        (case map_of dim_sizes d of
           None \<Rightarrow> Inl KeyError
         | Some n \<Rightarrow> buffered_parents buf_dims (AList.update (parent_or_self d) n dim_sizes))
      else buffered_parents buf_dims dim_sizes)"

text \<open>
  Lines 176 to 187. Calling an integer raises the \<^verbatim>\<open>TypeError\<close> that the source
  catches, so a non-zero integer is stored as it is and switches autotuning off; a
  function is applied to the size of the dimension.
\<close>

fun block_size :: "block_value \<Rightarrow> int \<Rightarrow> bool \<Rightarrow> int \<times> bool" where
  "block_size NoValue dim_sz maybe_autotune = (dim_sz, maybe_autotune)"
| "block_size (Fixed v) dim_sz maybe_autotune =
     (if value_given (Fixed v) then (v, False) else (dim_sz, maybe_autotune))"
| "block_size (Derive f) dim_sz maybe_autotune = (f dim_sz, maybe_autotune)"

fun block_sizes ::
  "blocking_arg list \<Rightarrow> dim_sizes \<Rightarrow> dim_sizes \<Rightarrow> bool \<Rightarrow> error + dim_sizes \<times> bool" where
  "block_sizes [] dim_sizes dle_args maybe_autotune = Inr (dle_args, maybe_autotune)"
| "block_sizes (i # rest) dim_sizes dle_args maybe_autotune =
     (case (case map_of dim_sizes (original_dim i) of
              Some n \<Rightarrow> Some n
            | None \<Rightarrow> dim_size (original_dim i)) of
        None \<Rightarrow> Inl AssertionError
      | Some dim_sz \<Rightarrow>
          (let (v, maybe_autotune') = block_size (blk_value i) dim_sz maybe_autotune
           in block_sizes rest dim_sizes (AList.update (argument i) v dle_args) maybe_autotune'))"

text \<open>Lines 191 to 193. \<^verbatim>\<open>d_args\<close> is computed before the loop.\<close>

fun dimension_values :: "argument list \<Rightarrow> dimension list" where
  "dimension_values [] = []"
| "dimension_values (DimensionArg d # vs) = d # dimension_values vs"
| "dimension_values (other # vs) = dimension_values vs"

fun insert_sizes :: "dimension list \<Rightarrow> dim_sizes \<Rightarrow> arguments \<Rightarrow> error + arguments" where
  "insert_sizes [] dim_sizes arguments = Inr arguments"
| "insert_sizes (d # d_args) dim_sizes arguments =
     (case map_of dim_sizes d of
        None \<Rightarrow> Inl KeyError
      | Some n \<Rightarrow> insert_sizes d_args dim_sizes (AList.update (dim_name d) (IntArg n) arguments))"

text \<open>\<^verbatim>\<open>kwargs.get('autotune', False)\<close>, as the later \<^verbatim>\<open>if maybe_autotune:\<close> reads it.\<close>

definition autotune_requested :: "arguments \<Rightarrow> bool" where
  "autotune_requested kwargs =
     (case map_of kwargs ''autotune'' of
        None \<Rightarrow> False
      | Some (IntArg n) \<Rightarrow> n \<noteq> 0
      | Some other \<Rightarrow> True)"

text \<open>
  Lines 122 to 193: everything \<^verbatim>\<open>arguments\<close> does before it may autotune. The result
  is the argument mapping, the sizes and the final \<^verbatim>\<open>maybe_autotune\<close>.
\<close>

definition bind_arguments ::
  "operator \<Rightarrow> parameter list \<Rightarrow> arguments \<Rightarrow> error + arguments \<times> dim_sizes \<times> bool" where
  "bind_arguments opr args kwargs =
     (let args = (if length args = 0 then parameters opr else args)
      in case overrides kwargs (initial_arguments opr) of
           Inl e \<Rightarrow> Inl e
         | Inr arguments \<Rightarrow>
             (case traverse_positional kwargs (zip (symbolic_values (map snd arguments)) args)
                     arguments [] of
                Inl e \<Rightarrow> Inl e
              | Inr (arguments, dim_sizes) \<Rightarrow>
                  (case buffered_parents (filter is_Buffered (map fst dim_sizes)) dim_sizes of
                     Inl e \<Rightarrow> Inl e
                   | Inr dim_sizes \<Rightarrow>
                       (case block_sizes (dle_arguments opr) dim_sizes []
                               (autotune_requested kwargs) of
                          Inl e \<Rightarrow> Inl e
                        | Inr (dle_args, maybe_autotune) \<Rightarrow>
                            (let dim_sizes = dict_update dim_sizes dle_args
                             in case insert_sizes (dimension_values (map snd arguments))
                                       dim_sizes arguments of
                                  Inl e \<Rightarrow> Inl e
                                | Inr arguments \<Rightarrow>
                                    Inr (arguments, dim_sizes, maybe_autotune))))))"

subsection \<open>Autotuning\<close>

text \<open>\<^verbatim>\<open>OperatorCore._extra_arguments\<close>\<close>

definition extra_arguments :: "operator \<Rightarrow> arguments" where
  "extra_arguments opr = OrderedDict [(s_name opr, TimerStruct)]"

text \<open>
  Lines 525 to 531: the loop over \<^verbatim>\<open>arguments.items()\<close> that replaces every output
  by \<^verbatim>\<open>v.copy()\<close> in \<^verbatim>\<open>at_arguments\<close>. The copy of an array allocates; the copy of a
  symbolic object is an equal object; an integer has no \<^verbatim>\<open>copy\<close>.
\<close>

fun clone_outputs ::
  "string list \<Rightarrow> arguments \<Rightarrow> arguments \<Rightarrow> machine \<Rightarrow> (error + arguments) \<times> machine" where
  "clone_outputs output [] at_arguments m = (Inr at_arguments, m)"
| "clone_outputs output ((k, v) # items) at_arguments m =
     (if k \<in> set output then
        (case v of
           Array a \<Rightarrow>
             (let (a', m') = array_copy a m
              in clone_outputs output items (AList.update k (Array a') at_arguments) m')
         | Symbolic f \<Rightarrow> clone_outputs output items (AList.update k v at_arguments) m
         | DimensionArg d \<Rightarrow> clone_outputs output items (AList.update k v at_arguments) m
         | IntArg n \<Rightarrow> (Inl AttributeError, m)
         | TimerStruct \<Rightarrow> (Inl AttributeError, m))
      else clone_outputs output items at_arguments m)"

text \<open>Lines 534 to 536\<close>

definition squeezable :: "operator \<Rightarrow> string list" where
  "squeezable opr =
     map (\<lambda>i. dim_name (parent_or_self (it_dim i)))
       (filter (\<lambda>i. is_Sequential i \<and> is_Buffered (it_dim i)) (iterations opr))"

text \<open>Lines 539 to 541\<close>

definition blocking_mapper :: "operator \<Rightarrow> (string \<times> blocking_arg) list" where
  "blocking_mapper opr = OrderedDict (map (\<lambda>i. (dim_name (argument i), i)) (dle_arguments opr))"

type_synonym blocksize = "(string \<times> int) list"

definition square_blocksizes :: "(string \<times> blocking_arg) list \<Rightarrow> options \<Rightarrow> blocksize list" where
  "square_blocksizes mapper opts =
     map (\<lambda>v. OrderedDict (map (\<lambda>i. (i, v)) (map fst mapper))) (at_blocksize opts)"

text \<open>
  Lines 543 to 547. \<^verbatim>\<open>i.items()[-1]\<close> raises on an empty candidate, and the body of
  the loop runs for every \<^verbatim>\<open>i\<close> as soon as there is one candidate.
\<close>

definition elaborated_tails :: "blocksize list \<Rightarrow> error + blocksize list" where
  "elaborated_tails blocksizes =
     (if [] \<in> set blocksizes then Inl IndexError
      else Inr (concat (map (\<lambda>blocksize.
                  map (\<lambda>i. OrderedDict (butlast blocksize @ [last i])) blocksizes)
                (take 3 blocksizes))))"

text \<open>\<^verbatim>\<open>itertools.combinations(xs, r)\<close>\<close>

fun combinations :: "'a list \<Rightarrow> nat \<Rightarrow> 'a list list" where
  "combinations xs 0 = [[]]"
| "combinations [] (Suc r) = []"
| "combinations (x # xs) (Suc r) = map ((#) x) (combinations xs r) @ combinations xs (Suc r)"

text \<open>
  Lines 548 to 554. \<^verbatim>\<open>blocksize[k]\<close> for a pair \<^verbatim>\<open>(k, v)\<close> of
  \<^verbatim>\<open>blocksize.items()\<close> is \<^verbatim>\<open>v\<close>.
\<close>

definition doubled :: "blocksize \<Rightarrow> string list \<Rightarrow> blocksize" where
  "doubled blocksize j = OrderedDict (map (\<lambda>(k, v). (k, if k \<in> set j then v * 2 else v)) blocksize)"

definition elaborated_doubles :: "blocksize list \<Rightarrow> blocksize list" where
  "elaborated_doubles blocksizes =
     concat (map (\<lambda>blocksize.
        concat (map (\<lambda>i. map (doubled blocksize) (combinations (map fst blocksize) (i + 1)))
                  [0..<length blocksize]))
      blocksizes)"

definition attempted_blocksizes :: "options \<Rightarrow> operator \<Rightarrow> error + blocksize list" where
  "attempted_blocksizes opts opr =
     (let blocksizes = square_blocksizes (blocking_mapper opr) opts
      in if needs_aggressive_autotuning opr then
           (case elaborated_tails blocksizes of
              Inl e \<Rightarrow> Inl e
            | Inr tails \<Rightarrow> Inr (blocksizes @ tails @ elaborated_doubles blocksizes))
         else Inr blocksizes)"

text \<open>
  Lines 561 to 573: one candidate is bound into \<^verbatim>\<open>at_arguments\<close>, key by key over
  the snapshot \<^verbatim>\<open>at_arguments.items()\<close>. The result is the flag \<^verbatim>\<open>illegal\<close> and
  \<^verbatim>\<open>at_arguments\<close> as the loop left it.
\<close>

fun bind_blocksize ::
  "(string \<times> blocking_arg) list \<Rightarrow> string list \<Rightarrow> int \<Rightarrow> blocksize \<Rightarrow>
   arguments \<Rightarrow> arguments \<Rightarrow> error + bool \<times> arguments" where
  "bind_blocksize mapper squeezed squeezer blocksize [] at_arguments = Inr (False, at_arguments)"
| "bind_blocksize mapper squeezed squeezer blocksize ((k, v) # items) at_arguments =
     (case map_of blocksize k of
        Some val \<Rightarrow>
          (case map_of mapper k of
             None \<Rightarrow> Inl KeyError
           | Some b \<Rightarrow>
               (let handle = map_of at_arguments (dim_name (original_dim b))
                in if val \<le> iter_end (iteration b) handle then
                     bind_blocksize mapper squeezed squeezer blocksize items
                       (AList.update k (IntArg val) at_arguments)
                   else Inr (True, at_arguments)))
      | None \<Rightarrow>
          if k \<in> set squeezed then
            bind_blocksize mapper squeezed squeezer blocksize items
              (AList.update k (IntArg squeezer) at_arguments)
          else bind_blocksize mapper squeezed squeezer blocksize items at_arguments)"

text \<open>
  Lines 559 to 584: a legal candidate is run once and the sum of the profiler's
  timings is stored under the candidate in \<^verbatim>\<open>timings\<close>. The times are added as
  exact values; the search only compares the recorded sums.
\<close>

fun trial_loop ::
  "options \<Rightarrow> operator \<Rightarrow> blocksize list \<Rightarrow> arguments \<Rightarrow> (blocksize \<times> real) list \<Rightarrow>
   machine \<Rightarrow> (error + (blocksize \<times> real) list) \<times> machine" where
  "trial_loop opts opr [] at_arguments timings m = (Inr timings, m)"
| "trial_loop opts opr (blocksize # blocksizes) at_arguments timings m =
     (case bind_blocksize (blocking_mapper opr) (squeezable opr) (at_squeezer opts)
             blocksize at_arguments at_arguments of
        Inl e \<Rightarrow> (Inl e, m)
      | Inr (illegal, at_arguments1) \<Rightarrow>
          if illegal then trial_loop opts opr blocksizes at_arguments1 timings m
          else
            (let at_arguments2 = dict_update at_arguments1 (extra_arguments opr);
                 m' = cfunction opr (map snd at_arguments2) m;
                 elapsed = sum_list (map snd (profiler_timings m'))
             in trial_loop opts opr blocksizes at_arguments2
                  (AList.update blocksize elapsed timings) m'))"

text \<open>
  \<^verbatim>\<open>min(timings, key=timings.get)\<close>: the scan keeps the first key whose time no later
  key undercuts, and raises on an empty dictionary.
\<close>

fun min_scan :: "('k \<times> real) list \<Rightarrow> 'k \<times> real \<Rightarrow> 'k" where
  "min_scan [] (best, t_best) = best"
| "min_scan ((k, t) # rest) (best, t_best) =
     (if t < t_best then min_scan rest (k, t) else min_scan rest (best, t_best))"

fun min_key :: "('k \<times> real) list \<Rightarrow> error + 'k" where
  "min_key [] = Inl ValueError"
| "min_key ((k, t) # rest) = Inr (min_scan rest (k, t))"

text \<open>Lines 587 to 589\<close>

fun write_back ::
  "(string \<times> blocking_arg) list \<Rightarrow> blocksize \<Rightarrow> arguments \<Rightarrow> arguments \<Rightarrow> error + arguments" where
  "write_back mapper best [] arguments = Inr arguments"
| "write_back mapper best ((k, v) # items) arguments =
     (if k \<in> fst ` set mapper then
        (case map_of best k of
           None \<Rightarrow> Inl KeyError
         | Some val \<Rightarrow> write_back mapper best items (AList.update k (IntArg val) arguments))
      else write_back mapper best items arguments)"

text \<open>
  \<^verbatim>\<open>OperatorCore._autotune\<close>. The source mutates \<^verbatim>\<open>arguments\<close> in place; the model
  returns the mapping the caller holds afterwards, and the machine.
\<close>

definition autotune ::
  "options \<Rightarrow> operator \<Rightarrow> arguments \<Rightarrow> machine \<Rightarrow> (error + arguments) \<times> machine" where
  "autotune opts opr arguments m =
     (if \<not> has_applied_blocking opr then (Inr arguments, m)
      else
        (case clone_outputs (output_fields opr) arguments arguments m of
           (Inl e, m1) \<Rightarrow> (Inl e, m1)
         | (Inr at_arguments, m1) \<Rightarrow>
             (case attempted_blocksizes opts opr of
                Inl e \<Rightarrow> (Inl e, m1)
              | Inr blocksizes \<Rightarrow>
                  (case trial_loop opts opr blocksizes at_arguments [] m1 of
                     (Inl e, m2) \<Rightarrow> (Inl e, m2)
                   | (Inr timings, m2) \<Rightarrow>
                       (case min_key timings of
                          Inl e \<Rightarrow> (Inl e, m2)
                        | Inr best \<Rightarrow>
                            (case write_back (blocking_mapper opr) best arguments arguments of
                               Inl e \<Rightarrow> (Inl e, m2)
                             | Inr arguments' \<Rightarrow> (Inr arguments', m2)))))))"

text \<open>\<^verbatim>\<open>OperatorBasic.arguments\<close>, with the hooks of \<^verbatim>\<open>OperatorCore\<close>.\<close>

definition operator_arguments ::
  "options \<Rightarrow> operator \<Rightarrow> parameter list \<Rightarrow> arguments \<Rightarrow> machine \<Rightarrow>
   (error + arguments \<times> dim_sizes) \<times> machine" where
  "operator_arguments opts opr args kwargs m =
     (case bind_arguments opr args kwargs of
        Inl e \<Rightarrow> (Inl e, m)
      | Inr (arguments, dim_sizes, maybe_autotune) \<Rightarrow>
          (case (if maybe_autotune then autotune opts opr arguments m else (Inr arguments, m)) of
             (Inl e, m') \<Rightarrow> (Inl e, m')
           | (Inr arguments', m') \<Rightarrow>
               (Inr (dict_update arguments' (extra_arguments opr), dim_sizes), m')))"

subsection \<open>Performance accounting\<close>

text \<open>
  The floats computed here are IEEE 754 binary64 numbers: 53 significant bits, the
  unit in the last place between \<open>2 powi - 1074\<close> and \<open>2 powi 971\<close>, every operation
  rounded to the nearest representable number with ties to the even significand. A
  finite float is given by its exact value; the two zeros, which compare equal, are
  one value.
\<close>

datatype pyfloat = Finite real | PosInf | NegInf | NaN

text \<open>
  The binade of a magnitude: the greatest \<open>e\<close> from \<open>- 1022\<close> to \<open>1023\<close> with
  \<open>2 powi e \<le> \<bar>x\<bar>\<close>, and \<open>- 1022\<close> for the subnormal numbers and zero.
\<close>

fun binade :: "nat \<Rightarrow> int \<Rightarrow> real \<Rightarrow> int" where
  "binade 0 e x = e"
| "binade (Suc n) e x = (if 2 powi (e + 1) \<le> x then binade n (e + 1) x else e)"

definition exponent :: "real \<Rightarrow> int" where
  "exponent x = binade 2045 (- 1022) \<bar>x\<bar>"

definition round_half_even :: "real \<Rightarrow> int" where
  "round_half_even x =
     (let n = \<lfloor>x\<rfloor>; r = x - of_int n
      in if r < 1 / 2 then n else if 1 / 2 < r then n + 1 else if even n then n else n + 1)"

text \<open>Rounding an exact value to a float; a result beyond the largest float is infinite.\<close>

definition round_double :: "real \<Rightarrow> pyfloat" where
  "round_double x =
     (let ulp = 2 powi (exponent x - 52);
          y = of_int (round_half_even (x / ulp)) * ulp
      in if 2 powi 1024 \<le> y then PosInf
         else if y \<le> - (2 powi 1024) then NegInf
         else Finite y)"

text \<open>\<^verbatim>\<open>float(n)\<close> of an integer, also applied to an integer operand of a float division.\<close>

definition int_to_float :: "int \<Rightarrow> error + pyfloat" where
  "int_to_float n =
     (case round_double (of_int n) of
        Finite y \<Rightarrow> Inr (Finite y)
      | _ \<Rightarrow> Inl OverflowError)"

text \<open>
  \<^verbatim>\<open>a / b\<close> on floats: a zero divisor raises, everything else is the IEEE division, which
  returns an infinity on overflow.
\<close>

definition float_div :: "pyfloat \<Rightarrow> pyfloat \<Rightarrow> error + pyfloat" where
  "float_div a b =
     (case b of
        Finite y \<Rightarrow>
          if y = 0 then Inl ZeroDivisionError
          else (case a of
                  Finite x \<Rightarrow> Inr (round_double (x / y))
                | PosInf \<Rightarrow> Inr (if 0 < y then PosInf else NegInf)
                | NegInf \<Rightarrow> Inr (if 0 < y then NegInf else PosInf)
                | NaN \<Rightarrow> Inr NaN)
      | NaN \<Rightarrow> Inr NaN
      | _ \<Rightarrow> (case a of Finite x \<Rightarrow> Inr (Finite 0) | _ \<Rightarrow> Inr NaN))"

text \<open>\<^verbatim>\<open>a / n\<close> for a float and an integer: the integer is converted first.\<close>

definition float_div_int :: "pyfloat \<Rightarrow> int \<Rightarrow> error + pyfloat" where
  "float_div_int a n =
     (case int_to_float n of
        Inl e \<Rightarrow> Inl e
      | Inr b \<Rightarrow> float_div a b)"

text \<open>\<^verbatim>\<open>a < b\<close> and \<^verbatim>\<open>a == b\<close> on floats; both are false when an operand is not a number.\<close>

fun float_lt :: "pyfloat \<Rightarrow> pyfloat \<Rightarrow> bool" where
  "float_lt (Finite x) (Finite y) = (x < y)"
| "float_lt (Finite x) PosInf = True"
| "float_lt NegInf (Finite y) = True"
| "float_lt NegInf PosInf = True"
| "float_lt a b = False"

fun float_eq :: "pyfloat \<Rightarrow> pyfloat \<Rightarrow> bool" where
  "float_eq (Finite x) (Finite y) = (x = y)"
| "float_eq PosInf PosInf = True"
| "float_eq NegInf NegInf = True"
| "float_eq a b = False"

text \<open>
  \<^verbatim>\<open>PerfEntry = namedtuple('PerfEntry', 'time gflopss oi itershape datashape')\<close>.
  The time is the finite float read from the timer struct; a
  \<^verbatim>\<open>PerformanceSummary\<close> is an \<^verbatim>\<open>OrderedDict\<close> from section names to entries.
\<close>

record perf_entry =
  time :: real
  gflopss :: pyfloat
  oi :: pyfloat
  itershape :: "int list"
  datashape :: "int list"

type_synonym performance_summary = "(string \<times> perf_entry) list"

text \<open>\<^verbatim>\<open>reduce(operator.mul, xs)\<close>, which raises on an empty list.\<close>

fun reduce_mul :: "int list \<Rightarrow> error + int" where
  "reduce_mul [] = Inl TypeError"
| "reduce_mul (x # xs) = Inr (foldl (*) x xs)"

text \<open>\<^verbatim>\<open>i.dim.size or dim_sizes[dims[i]]\<close>: a size that is \<^verbatim>\<open>None\<close> or 0 is false.\<close>

definition data_extent :: "dim_sizes \<Rightarrow> iteration \<Rightarrow> error + int" where
  "data_extent dim_sizes i =
     (case dim_size (it_dim i) of
        Some n \<Rightarrow>
          if n \<noteq> 0 then Inr n
          else (case map_of dim_sizes (parent_or_self (it_dim i)) of
                  None \<Rightarrow> Inl KeyError | Some n' \<Rightarrow> Inr n')
      | None \<Rightarrow>
          (case map_of dim_sizes (parent_or_self (it_dim i)) of
             None \<Rightarrow> Inl KeyError | Some n' \<Rightarrow> Inr n'))"

fun data_extents :: "dim_sizes \<Rightarrow> iteration list \<Rightarrow> error + int list" where
  "data_extents dim_sizes [] = Inr []"
| "data_extents dim_sizes (i # itspace) =
     (case data_extent dim_sizes i of
        Inl e \<Rightarrow> Inl e
      | Inr n \<Rightarrow>
          (case data_extents dim_sizes itspace of
             Inl e \<Rightarrow> Inl e
           | Inr ns \<Rightarrow> Inr (n # ns)))"

text \<open>
  Lines 491 to 499: the two intermediate quantities of a section,
  \<^verbatim>\<open>float(profile.ops*iterspace)\<close> and the integer
  \<^verbatim>\<open>profile.memory*dataspace*self.dtype().itemsize\<close>.
\<close>

definition section_flops :: "profile \<Rightarrow> int \<Rightarrow> error + pyfloat" where
  "section_flops prof iterspace = int_to_float (ops prof * iterspace)"

definition section_traffic :: "operator \<Rightarrow> profile \<Rightarrow> int \<Rightarrow> int" where
  "section_traffic opr prof dataspace = memory_accesses prof * dataspace * itemsize (dtype opr)"

text \<open>
  Lines 485 to 506, one section: the key and the entry that \<^verbatim>\<open>setsection\<close> stores.
  \<^verbatim>\<open>gflops = flops/10**9\<close>, \<^verbatim>\<open>oi = flops/traffic\<close> and \<^verbatim>\<open>gflopss = gflops/time\<close> are
  float divisions, the first two with an integer divisor; each raises on a zero
  divisor.
\<close>

definition section_entry ::
  "operator \<Rightarrow> dim_sizes \<Rightarrow> machine \<Rightarrow> iteration list \<times> profile \<Rightarrow> error + string \<times> perf_entry" where
  "section_entry opr dim_sizes m sec =
     (let (itspace, prof) = sec
      in case map_of (profiler_timings m) (timer prof) of
           None \<Rightarrow> Inl KeyError
         | Some t \<Rightarrow>
             (let itshape = map (\<lambda>i. extent i (map_of dim_sizes (parent_or_self (it_dim i)))) itspace
              in case reduce_mul itshape of
                   Inl e \<Rightarrow> Inl e
                 | Inr iterspace \<Rightarrow>
                     (case section_flops prof iterspace of
                        Inl e \<Rightarrow> Inl e
                      | Inr flops \<Rightarrow>
                     (case float_div_int flops (10 ^ 9) of
                        Inl e \<Rightarrow> Inl e
                      | Inr gflops \<Rightarrow>
                     (case data_extents dim_sizes itspace of
                        Inl e \<Rightarrow> Inl e
                      | Inr dshape \<Rightarrow>
                     (case reduce_mul dshape of
                        Inl e \<Rightarrow> Inl e
                      | Inr dataspace \<Rightarrow>
                     (case float_div_int flops (section_traffic opr prof dataspace) of
                        Inl e \<Rightarrow> Inl e
                      | Inr oi' \<Rightarrow>
                     (case float_div gflops (Finite t) of
                        Inl e \<Rightarrow> Inl e
                      | Inr gflopss' \<Rightarrow>
                          Inr (timer prof,
                               \<lparr>time = t, gflopss = gflopss', oi = oi',
                                itershape = itshape, datashape = dshape\<rparr>)))))))))"

fun summary_loop ::
  "operator \<Rightarrow> dim_sizes \<Rightarrow> machine \<Rightarrow> (iteration list \<times> profile) list \<Rightarrow>
   performance_summary \<Rightarrow> error + performance_summary" where
  "summary_loop opr dim_sizes m [] summary = Inr summary"
| "summary_loop opr dim_sizes m (sec # secs) summary =
     (case section_entry opr dim_sizes m sec of
        Inl e \<Rightarrow> Inl e
      | Inr (key, entry) \<Rightarrow> summary_loop opr dim_sizes m secs (AList.update key entry summary))"

text \<open>
  The order of \<^verbatim>\<open>PerfEntry\<close> tuples: the first field at which the two tuples are
  not equal decides, with Python's order of lists for the two shapes.
\<close>

fun list_less :: "int list \<Rightarrow> int list \<Rightarrow> bool" where
  "list_less [] [] = False"
| "list_less [] (y # ys) = True"
| "list_less (x # xs) [] = False"
| "list_less (x # xs) (y # ys) = (x < y \<or> (x = y \<and> list_less xs ys))"

definition entry_less :: "perf_entry \<Rightarrow> perf_entry \<Rightarrow> bool" where
  "entry_less a b =
     (time a < time b \<or> (time a = time b \<and>
       (if \<not> float_eq (gflopss a) (gflopss b) then float_lt (gflopss a) (gflopss b)
        else if \<not> float_eq (oi a) (oi b) then float_lt (oi a) (oi b)
        else (list_less (itershape a) (itershape b) \<or> (itershape a = itershape b \<and>
                list_less (datashape a) (datashape b))))))"

text \<open>\<^verbatim>\<open>max(summary, key=summary.get)\<close>: the first key with a greatest entry.\<close>

fun max_scan :: "performance_summary \<Rightarrow> string \<times> perf_entry \<Rightarrow> string" where
  "max_scan [] (best, e_best) = best"
| "max_scan ((k, e) # rest) (best, e_best) =
     (if entry_less e_best e then max_scan rest (k, e) else max_scan rest (best, e_best))"

fun max_key :: "performance_summary \<Rightarrow> error + string" where
  "max_key [] = Inl ValueError"
| "max_key ((k, e) # rest) = Inr (max_scan rest (k, e))"

text \<open>\<^verbatim>\<open>OperatorCore._profile_summary\<close>\<close>

definition profile_summary ::
  "operator \<Rightarrow> dim_sizes \<Rightarrow> machine \<Rightarrow> error + performance_summary" where
  "profile_summary opr dim_sizes m =
     (case summary_loop opr dim_sizes m (sections opr) [] of
        Inl e \<Rightarrow> Inl e
      | Inr summary \<Rightarrow>
          (case max_key summary of
             Inl e \<Rightarrow> Inl e
           | Inr key \<Rightarrow>
               (case map_of summary key of
                  None \<Rightarrow> Inl KeyError
                | Some entry \<Rightarrow> Inr (AList.update ''main'' entry (AList.delete key summary)))))"

subsection \<open>Applying an operator\<close>

text \<open>
  \<^verbatim>\<open>OperatorCore.apply\<close>: bind the arguments, run the native routine, return the
  summary. The log lines are not modelled.
\<close>

definition operator_apply ::
  "options \<Rightarrow> operator \<Rightarrow> parameter list \<Rightarrow> arguments \<Rightarrow> machine \<Rightarrow>
   (error + performance_summary) \<times> machine" where
  "operator_apply opts opr args kwargs m =
     (case operator_arguments opts opr args kwargs m of
        (Inl e, m1) \<Rightarrow> (Inl e, m1)
      | (Inr (arguments, dim_sizes), m1) \<Rightarrow>
          (let m2 = cfunction opr (map snd arguments) m1
           in (profile_summary opr dim_sizes m2, m2)))"

text \<open>
  \<^verbatim>\<open>OperatorCore.__call__\<close>: the body is the statement \<^verbatim>\<open>self.apply(*args, **kwargs)\<close>
  with no \<^verbatim>\<open>return\<close>, so a call that does not raise returns \<^verbatim>\<open>None\<close>.
\<close>

definition operator_call ::
  "options \<Rightarrow> operator \<Rightarrow> parameter list \<Rightarrow> arguments \<Rightarrow> machine \<Rightarrow>
   (error + performance_summary option) \<times> machine" where
  "operator_call opts opr args kwargs m =
     (case operator_apply opts opr args kwargs m of
        (Inl e, m') \<Rightarrow> (Inl e, m')
      | (Inr summary, m') \<Rightarrow> (Inr None, m'))"

subsection \<open>Invariants used in the proofs\<close>


subsection \<open>The spec's notion of an illegal candidate\<close>

text \<open>
  Following the spec's words, to be compared with the loop \<open>bind_blocksize\<close>: a
  candidate is illegal when some blocking parameter's trial value exceeds the resolved
  extent of its governing dimension. The extent is what \<^verbatim>\<open>iteration.end\<close> makes of the
  value that the caller's argument mapping holds under the name of the dimension.
\<close>

definition exceeds_extent :: "(string \<times> blocking_arg) list \<Rightarrow> arguments \<Rightarrow> blocksize \<Rightarrow> bool" where
  "exceeds_extent mapper arguments blocksize \<longleftrightarrow>
     (\<exists>(k, b) \<in> set mapper. \<exists>val. map_of blocksize k = Some val \<and>
        iter_end (iteration b) (map_of arguments (dim_name (original_dim b))) < val)"

text \<open>
  The names whose entries the search may change in its private copy \<^verbatim>\<open>at_arguments\<close>:
  the blocking parameters, the squeezable dimensions, the outputs and the profiler's
  struct.
\<close>

definition searched_names :: "operator \<Rightarrow> string set" where
  "searched_names opr =
     fst ` set (blocking_mapper opr) \<union> set (squeezable opr) \<union> set (output_fields opr) \<union> {s_name opr}"

subsection \<open>A sample operator\<close>

text \<open>
  The closed instances below are evaluated on one small operator: a field \<open>u\<close> over
  the open dimensions \<open>x\<close> and \<open>y\<close>, written by the kernel, with the loop over \<open>x\<close>
  blocked by \<open>x_block\<close>. Its native routine overwrites the buffer it receives for \<open>u\<close>
  and reports a time that depends on the block size only.
\<close>

definition ex_x :: dimension where
  "ex_x = Dimension ''x'' None"

definition ex_y :: dimension where
  "ex_y = Dimension ''y'' None"

definition ex_x_block :: dimension where
  "ex_x_block = Dimension ''x_block'' None"

definition ex_loop :: "dimension \<Rightarrow> iteration" where
  "ex_loop d =
     \<lparr>it_dim = d, is_Sequential = False,
      extent = (\<lambda>finish. case finish of None \<Rightarrow> 0 | Some n \<Rightarrow> n),
      iter_end = (\<lambda>handle. case handle of Some (IntArg n) \<Rightarrow> n | _ \<Rightarrow> 0)\<rparr>"

definition ex_u :: "int list \<Rightarrow> nat \<Rightarrow> symbolic_data" where
  "ex_u shape address =
     \<lparr>sd_name = ''u'', sd_shape = shape, sd_indices = [ex_x, ex_y],
      sd_data = \<lparr>buffer = address, nd_shape = shape\<rparr>\<rparr>"

definition ex_time :: "int \<Rightarrow> real" where
  "ex_time b = (if b = 8 then 5 else if b = 16 then 3 else if b = 32 then 4 else 1)"

fun ex_kernel :: "argument list \<Rightarrow> machine \<Rightarrow> machine" where
  "ex_kernel (Array a # x # y # IntArg b # rest) m =
     m\<lparr>memory := (memory m)(buffer a := [1]), profiler_timings := [(''loop_x_0'', ex_time b)]\<rparr>"
| "ex_kernel args m = m"

definition ex_operator :: "block_value \<Rightarrow> operator" where
  "ex_operator v =
     \<lparr>dtype = Float64,
      parameters = [DataParam (ex_u [10, 20] 0), DimParam ex_x, DimParam ex_y, DimParam ex_x_block],
      dle_arguments =
        [\<lparr>argument = ex_x_block, original_dim = ex_x, iteration = ex_loop ex_x, blk_value = v\<rparr>],
      has_applied_blocking = True,
      needs_aggressive_autotuning = False,
      output_fields = [''u''],
      iterations = [ex_loop ex_x, ex_loop ex_y],
      sections = [([ex_loop ex_x, ex_loop ex_y], \<lparr>timer = ''loop_x_0'', ops = 2, memory_accesses = 1\<rparr>)],
      s_name = ''timings'',
      cfunction = ex_kernel\<rparr>"

definition ex_machine :: machine where
  "ex_machine = \<lparr>memory = (\<lambda>a. [0]), brk = 1, profiler_timings = []\<rparr>"

definition ex_options :: options where
  "ex_options = \<lparr>at_squeezer = 3, at_blocksize = [8, 16, 32, 128]\<rparr>"

subsection \<open>Helper lemmas\<close>

lemma retrieve_dtype_Inr_iff:
  "retrieve_dtype stencils = Inr d \<longleftrightarrow> lhs_dtype ` set stencils = {d}"
proof
  assume "retrieve_dtype stencils = Inr d"
  then have len: "length (remdups (map lhs_dtype stencils)) = 1"
    and hd: "hd (remdups (map lhs_dtype stencils)) = d"
    by (auto simp: retrieve_dtype_def Let_def split: if_splits)
  from len obtain x where x: "remdups (map lhs_dtype stencils) = [x]"
    by (cases "remdups (map lhs_dtype stencils)") auto
  with hd have "remdups (map lhs_dtype stencils) = [d]" by simp
  then have "set (remdups (map lhs_dtype stencils)) = {d}" by simp
  then show "lhs_dtype ` set stencils = {d}" by simp
next
  assume a: "lhs_dtype ` set stencils = {d}"
  then have "set (remdups (map lhs_dtype stencils)) = {d}" by simp
  moreover have "distinct (remdups (map lhs_dtype stencils))" by simp
  ultimately have "length (remdups (map lhs_dtype stencils)) = 1"
    using distinct_card [of "remdups (map lhs_dtype stencils)"] by simp
  then obtain x where "remdups (map lhs_dtype stencils) = [x]"
    by (cases "remdups (map lhs_dtype stencils)") auto
  with \<open>set (remdups (map lhs_dtype stencils)) = {d}\<close>
  have "remdups (map lhs_dtype stencils) = [d]" by simp
  then show "retrieve_dtype stencils = Inr d"
    by (simp add: retrieve_dtype_def)
qed

lemma trim_loop_append: "trim_loop found trimmed v = trimmed @ trim_loop found [] v"
proof (induction v arbitrary: found trimmed)
  case Nil
  then show ?case by simp
next
  case (Cons n v)
  show ?case
  proof (cases n)
    case (Expression e)
    show ?thesis
    proof (cases "e \<in> found")
      case True
      with Expression Cons.IH [of found trimmed] show ?thesis by simp
    next
      case False
      with Expression Cons.IH [of "insert e found" "trimmed @ [Expression e]"]
        Cons.IH [of "insert e found" "[Expression e]"]
      show ?thesis by simp
    qed
  next
    case (Iteration ns a)
    with Cons.IH [of found "trimmed @ [Iteration ns a]"] Cons.IH [of found "[Iteration ns a]"]
    show ?thesis by simp
  qed
qed

text \<open>The nodes kept from v when the stencils in found were seen before.\<close>

lemma trim_loop_snoc:
  "trim_loop found [] (v @ [n]) =
     trim_loop found [] v @
       (case n of Expression e \<Rightarrow> if e \<in> found \<or> Expression e \<in> set v then [] else [n]
        | Iteration ns a \<Rightarrow> [n])"
proof (induction v arbitrary: found)
  case Nil
  then show ?case by (cases n) auto
next
  case (Cons x v)
  show ?case
  proof (cases x)
    case (Expression e)
    then show ?thesis
      using Cons.IH [of found] Cons.IH [of "insert e found"]
        trim_loop_append [of "insert e found" "[Expression e]" "v @ [n]"]
        trim_loop_append [of "insert e found" "[Expression e]" "v"]
      by (cases n) auto
  next
    case (Iteration ns a)
    then show ?thesis
      using Cons.IH [of found]
        trim_loop_append [of found "[Iteration ns a]" "v @ [n]"]
        trim_loop_append [of found "[Iteration ns a]" "v"]
      by (cases n) auto
  qed
qed

lemma trimmed_of_snoc:
  "trimmed_of (v @ [n]) = trimmed_of v @ (if is_Expression n \<and> n \<in> set v then [] else [n])"
  unfolding trimmed_of_def trim_loop_snoc by (cases n) auto

lemma trimmed_of_Nil: "trimmed_of [] = []"
  by (simp add: trimmed_of_def)

lemma set_trimmed_of: "set (trimmed_of v) = set v"
  by (induction v rule: rev_induct) (auto simp: trimmed_of_Nil trimmed_of_snoc)

lemma subseq_trimmed_of: "subseq (trimmed_of v) v"
proof (induction v rule: rev_induct)
  case Nil
  then show ?case by (simp add: trimmed_of_Nil)
next
  case (snoc n v)
  then show ?case
    by (auto simp: trimmed_of_snoc intro: subseq_rev_drop_many)
qed

lemma distinct_trimmed_of: "distinct (filter is_Expression (trimmed_of v))"
  by (induction v rule: rev_induct) (auto simp: trimmed_of_Nil trimmed_of_snoc set_trimmed_of)

lemma redundancy_mapper_other:
  "redundancy_mapper is_perfect acc secs = Inr mapper \<Longrightarrow> c \<notin> (\<lambda>s. last (fst s)) ` set secs \<Longrightarrow>
   map_of mapper c = map_of acc c"
proof (induction secs arbitrary: acc)
  case Nil
  then show ?case by simp
next
  case (Cons sec secs)
  obtain k v where sec: "sec = (k, v)" by (cases sec)
  from Cons.prems sec have c: "c \<noteq> last k" "c \<notin> (\<lambda>s. last (fst s)) ` set secs" by auto
  show ?case
  proof (cases "is_perfect (last k)")
    case False
    with Cons.prems sec have "redundancy_mapper is_perfect acc secs = Inr mapper"
      by (auto split: if_splits)
    from Cons.IH [OF this c(2)] show ?thesis .
  next
    case True
    with Cons.prems sec obtain ns a where it: "last k = Iteration ns a"
      and rec: "redundancy_mapper is_perfect
                  (AList.update (last k) (Iteration (trimmed_of v) a) acc) secs = Inr mapper"
      by (auto simp: Let_def split: if_splits node.splits)
    from Cons.IH [OF rec c(2)] c(1) show ?thesis
      by (simp add: update_conv')
  qed
qed

lemma redundancy_mapper_entry:
  "redundancy_mapper is_perfect acc secs = Inr mapper \<Longrightarrow>
   distinct (map (\<lambda>s. last (fst s)) secs) \<Longrightarrow> (k, v) \<in> set secs \<Longrightarrow> is_perfect (last k) \<Longrightarrow>
   \<exists>ns a. last k = Iteration ns a \<and> map_of mapper (last k) = Some (Iteration (trimmed_of v) a)"
proof (induction secs arbitrary: acc)
  case Nil
  then show ?case by simp
next
  case (Cons sec secs)
  obtain k' v' where sec: "sec = (k', v')" by (cases sec)
  from Cons.prems(2) sec have d: "last k' \<notin> (\<lambda>s. last (fst s)) ` set secs" "distinct (map (\<lambda>s. last (fst s)) secs)"
    by auto
  show ?case
  proof (cases "(k, v) = (k', v')")
    case True
    with Cons.prems sec obtain ns a where it: "last k = Iteration ns a"
      and rec: "redundancy_mapper is_perfect
                  (AList.update (last k) (Iteration (trimmed_of v) a) acc) secs = Inr mapper"
      by (auto simp: Let_def split: if_splits node.splits)
    from redundancy_mapper_other [OF rec] d(1) True
    have "map_of mapper (last k) = Some (Iteration (trimmed_of v) a)"
      by (simp add: update_conv')
    with it show ?thesis by simp
  next
    case False
    with Cons.prems(3) sec have mem: "(k, v) \<in> set secs" by auto
    from Cons.prems(1) sec obtain acc' where "redundancy_mapper is_perfect acc' secs = Inr mapper"
      by (auto simp: Let_def split: if_splits node.splits)
    from Cons.IH [OF this d(2) mem Cons.prems(4)] show ?thesis .
  qed
qed


lemma foldl_mult_prod: "foldl (*) (x::int) xs = x * prod_list xs"
  by (induction xs arbitrary: x) (simp_all add: mult.assoc)

lemma reduce_mul_prod: "xs \<noteq> [] \<Longrightarrow> reduce_mul xs = Inr (prod_list xs)"
  by (cases xs) (simp_all add: foldl_mult_prod)

lemma itemsize_pos: "0 < itemsize d"
  by (cases d) simp_all

lemma data_extents_length: "data_extents dim_sizes itspace = Inr ds \<Longrightarrow> length ds = length itspace"
  by (induction itspace arbitrary: ds) (auto split: sum.splits)

lemma binade_eq:
  "e \<le> k \<Longrightarrow> k \<le> e + int n \<Longrightarrow> 2 powi k \<le> x \<Longrightarrow> x < 2 powi (k + 1) \<Longrightarrow> binade n e x = k"
proof (induction n arbitrary: e)
  case 0
  then show ?case by simp
next
  case (Suc n)
  show ?case
  proof (cases "2 powi (e + 1) \<le> x")
    case True
    with Suc.prems(4) have "(2::real) powi (e + 1) < 2 powi (k + 1)" by simp
    then have "e + 1 < k + 1"
      by (metis linorder_not_less one_le_numeral power_int_increasing)
    then have "e + 1 \<le> k" by simp
    moreover from Suc.prems(2) have "k \<le> e + 1 + int n" by simp
    ultimately have "binade n (e + 1) x = k" using Suc.prems(3,4) by (rule Suc.IH)
    with True show ?thesis by simp
  next
    case False
    with Suc.prems(3) have "(2::real) powi k < 2 powi (e + 1)" by simp
    then have "k < e + 1"
      by (metis linorder_not_less one_le_numeral power_int_increasing)
    with Suc.prems(1) have "k = e" by simp
    with False show ?thesis by simp
  qed
qed

lemma binade_low: "x < 2 powi (e + 1) \<Longrightarrow> binade n e x = e"
  by (cases n) simp_all

lemma binade_ge: "e \<le> binade n e x"
proof (induction n arbitrary: e)
  case 0
  show ?case by simp
next
  case (Suc n)
  from Suc [of "e + 1"] show ?case by simp
qed

lemma binade_upper: "binade n e x \<le> e + int n"
proof (induction n arbitrary: e)
  case 0
  show ?case by simp
next
  case (Suc n)
  from Suc [of "e + 1"] show ?case by simp
qed

lemma binade_le: "x < 2 powi (k + 1) \<Longrightarrow> e \<le> k \<Longrightarrow> binade n e x \<le> k"
proof (induction n arbitrary: e)
  case 0
  then show ?case by simp
next
  case (Suc n)
  show ?case
  proof (cases "2 powi (e + 1) \<le> x")
    case True
    with Suc.prems(1) have "(2::real) powi (e + 1) < 2 powi (k + 1)" by simp
    then have "e + 1 < k + 1"
      by (metis linorder_not_less one_le_numeral power_int_increasing)
    then have "e + 1 \<le> k" by simp
    with Suc.IH [OF Suc.prems(1)] True show ?thesis by simp
  next
    case False
    with Suc.prems(2) show ?thesis by simp
  qed
qed

lemma binade_lower: "2 powi e \<le> x \<Longrightarrow> 2 powi (binade n e x) \<le> x"
  by (induction n arbitrary: e) simp_all

lemma exponent_eq:
  assumes "- 1022 \<le> k" "k \<le> 1023" "2 powi k \<le> \<bar>x\<bar>" "\<bar>x\<bar> < 2 powi (k + 1)"
  shows "exponent x = k"
  unfolding exponent_def using assms by (intro binade_eq) simp_all

lemma exponent_low: "\<bar>x\<bar> < 2 powi (- 1021) \<Longrightarrow> exponent x = - 1022"
  unfolding exponent_def by (rule binade_low) simp

lemma exponent_range: "- 1022 \<le> exponent x" "exponent x \<le> 1023"
  using binade_ge [of "- 1022" 2045 "\<bar>x\<bar>"] binade_upper [of 2045 "- 1022" "\<bar>x\<bar>"]
  by (simp_all add: exponent_def)

lemma exponent_le: "\<bar>x\<bar> < 2 powi (k + 1) \<Longrightarrow> - 1022 \<le> k \<Longrightarrow> exponent x \<le> k"
  unfolding exponent_def by (rule binade_le)

lemma exponent_lower: "2 powi (- 1022) \<le> \<bar>x\<bar> \<Longrightarrow> 2 powi (exponent x) \<le> \<bar>x\<bar>"
  unfolding exponent_def by (rule binade_lower)

lemma round_half_even_of_int: "round_half_even (of_int n) = n"
  by (simp add: round_half_even_def)

lemma round_half_even_error: "\<bar>of_int (round_half_even x) - x\<bar> \<le> 1 / 2"
proof -
  have "of_int \<lfloor>x\<rfloor> \<le> x" "x < of_int \<lfloor>x\<rfloor> + 1" by linarith+
  then show ?thesis by (auto simp: round_half_even_def Let_def)
qed

lemma round_double_eval:
  assumes "- 1022 \<le> k" "k \<le> 1023" "2 powi k \<le> \<bar>x\<bar>" "\<bar>x\<bar> < 2 powi (k + 1)"
    and "round_half_even (x / 2 powi (k - 52)) = m"
    and "\<bar>of_int m * 2 powi (k - 52)\<bar> < (2::real) powi 1024"
  shows "round_double x = Finite (of_int m * 2 powi (k - 52))"
proof -
  from assms(1-4) have "exponent x = k" by (rule exponent_eq)
  with assms(5,6) show ?thesis by (auto simp: round_double_def Let_def)
qed

lemma round_double_zero: "round_double 0 = Finite 0"
  by (simp add: round_double_def Let_def round_half_even_def)

lemma round_double_of_int:
  assumes "\<bar>n\<bar> \<le> 2 ^ 53"
  shows "round_double (of_int n) = Finite (of_int n)"
proof -
  define k where "k = exponent (of_int n)"
  define ulp :: real where "ulp = 2 powi (k - 52)"
  have ulp: "0 < ulp" by (simp add: ulp_def zero_less_power_int)
  from assms have "\<bar>real_of_int n\<bar> \<le> 2 ^ 53"
    by (metis of_int_abs of_int_le_iff of_int_numeral of_int_power)
  then have "\<bar>real_of_int n\<bar> < 2 powi (53 + 1)" by simp
  then have k53: "k \<le> 53" unfolding k_def by (rule exponent_le) simp
  have "\<exists>m::int. real_of_int n = of_int m * ulp"
  proof (cases "k \<le> 52")
    case True
    then have "ulp = inverse (2 ^ nat (52 - k))"
      by (simp add: ulp_def power_int_def power_one_over inverse_eq_divide)
    then have "real_of_int n = of_int (n * 2 ^ nat (52 - k)) * ulp" by simp
    then show ?thesis ..
  next
    case False
    with k53 have k: "k = 53" by simp
    then have u2: "ulp = 2" by (simp add: ulp_def)
    have "- 1022 < k" using k by simp
    have "2 powi (- 1022) \<le> \<bar>real_of_int n\<bar>"
    proof (rule ccontr)
      assume "\<not> 2 powi (- 1022) \<le> \<bar>real_of_int n\<bar>"
      then have "\<bar>real_of_int n\<bar> < 2 powi (- 1022)" by simp
      also have "\<dots> < 2 powi (- 1021)" by (intro power_int_strict_increasing) simp_all
      finally have "exponent (real_of_int n) = - 1022" by (rule exponent_low)
      with k show False by (simp add: k_def)
    qed
    from exponent_lower [OF this] k have "2 ^ 53 \<le> \<bar>real_of_int n\<bar>" by (simp add: k_def)
    then have "2 ^ 53 \<le> \<bar>n\<bar>"
      by (metis of_int_abs of_int_le_iff of_int_numeral of_int_power)
    with assms have "\<bar>n\<bar> = 2 ^ 53" by simp
    then have "n = 2 * 2 ^ 52 \<or> n = 2 * (- (2 ^ 52))" by (auto simp: abs_if split: if_splits)
    then obtain m where "n = 2 * m" by blast
    then have "real_of_int n = of_int m * ulp" by (simp add: u2)
    then show ?thesis ..
  qed
  then obtain m :: int where m: "real_of_int n = of_int m * ulp" ..
  with ulp have "real_of_int n / ulp = of_int m" by simp
  then have r: "round_half_even (real_of_int n / ulp) = m" by (simp add: round_half_even_of_int)
  from \<open>\<bar>real_of_int n\<bar> \<le> 2 ^ 53\<close> have "\<bar>real_of_int n\<bar> < 2 powi 1024" by simp
  then have "\<not> 2 powi 1024 \<le> real_of_int n" "\<not> real_of_int n \<le> - (2 powi 1024)" by linarith+
  with r m show ?thesis
    unfolding round_double_def Let_def k_def [symmetric] ulp_def [symmetric] by simp
qed

lemma round_double_Finite:
  assumes "\<bar>x\<bar> \<le> 2 powi 1023"
  shows "\<exists>y. round_double x = Finite y \<and> \<bar>y\<bar> < 2 powi 1024"
proof -
  define ulp :: real where "ulp = 2 powi (exponent x - 52)"
  define y where "y = of_int (round_half_even (x / ulp)) * ulp"
  have ulp: "0 < ulp" by (simp add: ulp_def zero_less_power_int)
  have "ulp \<le> 2 powi (1023 - 52)"
    unfolding ulp_def using exponent_range(2) [of x] by (intro power_int_increasing) simp_all
  then have u: "ulp \<le> 2 powi 971" by simp
  have "y - x = (of_int (round_half_even (x / ulp)) - x / ulp) * ulp"
    using ulp by (simp add: y_def left_diff_distrib)
  then have "\<bar>y - x\<bar> = \<bar>of_int (round_half_even (x / ulp)) - x / ulp\<bar> * ulp"
    using ulp by (simp add: abs_mult)
  also have "\<dots> \<le> 1 / 2 * ulp"
    using round_half_even_error [of "x / ulp"] ulp by (intro mult_right_mono) simp_all
  also have "\<dots> \<le> 1 / 2 * 2 powi 971" using u by simp
  finally have "\<bar>y - x\<bar> \<le> 1 / 2 * 2 powi 971" .
  with assms have "\<bar>y\<bar> \<le> 2 powi 1023 + 1 / 2 * 2 powi 971" by linarith
  also have "\<dots> < 2 powi 1024" by simp
  finally have "\<bar>y\<bar> < 2 powi 1024" .
  then have "\<not> 2 powi 1024 \<le> y" "\<not> y \<le> - (2 powi 1024)" "\<bar>y\<bar> < 2 powi 1024" by linarith+
  then show ?thesis
    unfolding round_double_def Let_def ulp_def [symmetric] y_def [symmetric] by simp
qed

lemma round_double_nonzero:
  assumes "2 powi (- 1022) \<le> \<bar>x\<bar>"
  shows "round_double x \<noteq> Finite 0"
proof -
  define ulp :: real where "ulp = 2 powi (exponent x - 52)"
  have ulp: "0 < ulp" by (simp add: ulp_def zero_less_power_int)
  have "2 powi (exponent x) = 2 ^ 52 * ulp"
    by (simp add: ulp_def power_int_diff)
  with exponent_lower [OF assms] have "2 ^ 52 * ulp \<le> \<bar>x\<bar>" by simp
  with ulp have "2 ^ 52 \<le> \<bar>x\<bar> / ulp" by (simp add: pos_le_divide_eq)
  with ulp have big: "2 ^ 52 \<le> \<bar>x / ulp\<bar>" by simp
  have "round_half_even (x / ulp) \<noteq> 0"
  proof
    assume "round_half_even (x / ulp) = 0"
    with round_half_even_error [of "x / ulp"] have "\<bar>x / ulp\<bar> \<le> 1 / 2" by simp
    moreover have "(1 / 2 :: real) < 2 ^ 52" by simp
    ultimately show False using big by linarith
  qed
  with ulp have "of_int (round_half_even (x / ulp)) * ulp \<noteq> 0" by simp
  then show ?thesis
    unfolding round_double_def Let_def ulp_def [symmetric] by simp
qed

lemma int_to_float_exact: "\<bar>n\<bar> \<le> 2 ^ 53 \<Longrightarrow> int_to_float n = Inr (Finite (of_int n))"
  by (simp add: int_to_float_def round_double_of_int)

lemma int_to_float_Inr:
  assumes "\<bar>n\<bar> \<le> 2 ^ 1023"
  shows "\<exists>y. int_to_float n = Inr (Finite y) \<and> round_double (of_int n) = Finite y \<and>
             \<bar>y\<bar> < 2 powi 1024"
proof -
  from assms have "\<bar>real_of_int n\<bar> \<le> 2 ^ 1023"
    by (metis of_int_abs of_int_le_iff of_int_numeral of_int_power)
  then have "\<bar>real_of_int n\<bar> \<le> 2 powi 1023" by simp
  from round_double_Finite [OF this] show ?thesis by (auto simp: int_to_float_def)
qed

lemma round_double_of_int_nonzero: "n \<noteq> 0 \<Longrightarrow> round_double (of_int n) \<noteq> Finite 0"
proof (rule round_double_nonzero)
  assume "n \<noteq> 0"
  then have "1 \<le> \<bar>n\<bar>" by simp
  then have "1 \<le> \<bar>real_of_int n\<bar>"
    by (metis of_int_abs of_int_1_le_iff)
  moreover have "(2::real) powi (- 1022) \<le> 1" by simp
  ultimately show "2 powi (- 1022) \<le> \<bar>real_of_int n\<bar>" by linarith
qed

lemma round_double_giga:
  assumes "\<bar>x\<bar> < 2 powi 1024"
  shows "\<exists>g. round_double (x / 10 ^ 9) = Finite g"
proof -
  have "\<bar>x / 10 ^ 9\<bar> = \<bar>x\<bar> / 10 ^ 9" by simp
  also have "\<dots> \<le> \<bar>x\<bar> / 2" by (intro divide_left_mono) simp_all
  also from assms have "\<dots> \<le> 2 powi 1023" by simp
  finally have "\<bar>x / 10 ^ 9\<bar> \<le> 2 powi 1023" .
  from round_double_Finite [OF this] show ?thesis by blast
qed

text \<open>The roundings met on the sample operator.\<close>

lemma round_double_claim_gflops:
  "round_double (1 / 5000000) = Finite (944473296573929 / 4722366482869645213696)"
  using round_double_eval [of "- 23" "1 / 5000000" 7555786372591432]
  by (simp add: round_half_even_def)

lemma round_double_claim_gflopss:
  "round_double (944473296573929 / 4722366482869645312) = Finite (1844674407370955 / 9223372036854775808)"
  using round_double_eval [of "- 13" "944473296573929 / 4722366482869645312" 7378697629483820]
  by (simp add: round_half_even_def)

lemma round_double_milli:
  "round_double (1 / 1000) = Finite (1152921504606847 / 1152921504606846976)"
  using round_double_eval [of "- 10" "1 / 1000" 4611686018427388]
  by (simp add: round_half_even_def)

lemma round_double_quarter:
  "round_double (1 / 4) = Finite (1 / 4)"
  using round_double_eval [of "- 2" "1 / 4" 4503599627370496]
  by (simp add: round_half_even_def)

lemma round_double_sample_gflops:
  "round_double (1 / 2500000) = Finite (944473296573929 / 2361183241434822606848)"
  using round_double_eval [of "- 22" "1 / 2500000" 7555786372591432]
  by (simp add: round_half_even_def)

lemma round_double_sample_gflopss:
  "round_double (944473296573929 / 2361183241434822606848) = Finite (944473296573929 / 2361183241434822606848)"
  using round_double_eval [of "- 22" "944473296573929 / 2361183241434822606848" 7555786372591432]
  by (simp add: round_half_even_def)

lemma round_double_large_flops:
  "round_double (27021597764222979) = Finite (27021597764222980)"
  using round_double_eval [of "54" "27021597764222979" 6755399441055745]
  by (simp add: round_half_even_def)

lemma round_double_large_traffic:
  "round_double (72057594037927944) = Finite (72057594037927936)"
  using round_double_eval [of "56" "72057594037927944" 4503599627370496]
  by (simp add: round_half_even_def)

lemma round_double_large_oi:
  "round_double (6755399441055745 / 18014398509481984) = Finite (6755399441055745 / 18014398509481984)"
  using round_double_eval [of "- 2" "6755399441055745 / 18014398509481984" 6755399441055745]
  by (simp add: round_half_even_def)

lemma round_double_large_gflops:
  "round_double (1351079888211149 / 50000000) = Finite (226673591177743 / 8388608)"
  using round_double_eval [of "24" "1351079888211149 / 50000000" 7253554917687776]
  by (simp add: round_half_even_def)

lemma round_double_large_gflopss:
  "round_double (226673591177743 / 8388608) = Finite (226673591177743 / 8388608)"
  using round_double_eval [of "24" "226673591177743 / 8388608" 7253554917687776]
  by (simp add: round_half_even_def)

lemma section_entry_Inr:
  assumes "itspace \<noteq> []"
    and "map_of (profiler_timings m) (timer prof) = Some t" and "t \<noteq> 0"
    and "\<bar>ops prof *
          prod_list (map (\<lambda>i. extent i (map_of dim_sizes (parent_or_self (it_dim i)))) itspace)\<bar>
         \<le> 2 ^ 1023"
    and "data_extents dim_sizes itspace = Inr ds"
    and "memory_accesses prof * prod_list ds \<noteq> 0"
    and "\<bar>memory_accesses prof * prod_list ds * itemsize (dtype opr)\<bar> \<le> 2 ^ 1023"
  shows "\<exists>flops traffic gflops.
           int_to_float (ops prof *
             prod_list (map (\<lambda>i. extent i (map_of dim_sizes (parent_or_self (it_dim i)))) itspace))
             = Inr (Finite flops) \<and>
           int_to_float (memory_accesses prof * prod_list ds * itemsize (dtype opr))
             = Inr (Finite traffic) \<and>
           round_double (flops / 10 ^ 9) = Finite gflops \<and>
           section_entry opr dim_sizes m (itspace, prof) =
             Inr (timer prof,
               \<lparr>time = t,
                gflopss = round_double (gflops / t),
                oi = round_double (flops / traffic),
                itershape = map (\<lambda>i. extent i (map_of dim_sizes (parent_or_self (it_dim i)))) itspace,
                datashape = ds\<rparr>)"
proof -
  let ?its = "map (\<lambda>i. extent i (map_of dim_sizes (parent_or_self (it_dim i)))) itspace"
  from assms(1,5) have "ds \<noteq> []" using data_extents_length by fastforce
  then have r2: "reduce_mul ds = Inr (prod_list ds)" by (rule reduce_mul_prod)
  have r1: "reduce_mul ?its = Inr (prod_list ?its)"
    using assms(1) by (intro reduce_mul_prod) simp
  from int_to_float_Inr [OF assms(4)] obtain flops where
    fl: "int_to_float (ops prof * prod_list ?its) = Inr (Finite flops)"
    and flb: "\<bar>flops\<bar> < 2 powi 1024" by blast
  from int_to_float_Inr [OF assms(7)] obtain traffic where
    tr: "int_to_float (memory_accesses prof * prod_list ds * itemsize (dtype opr))
           = Inr (Finite traffic)"
    and trr: "round_double (of_int (memory_accesses prof * prod_list ds * itemsize (dtype opr)))
           = Finite traffic" by blast
  have "memory_accesses prof * prod_list ds * itemsize (dtype opr) \<noteq> 0"
    using assms(6) itemsize_pos [of "dtype opr"] by simp
  from round_double_of_int_nonzero [OF this] trr have tr0: "traffic \<noteq> 0" by auto
  from round_double_giga [OF flb] obtain gflops where
    gf: "round_double (flops / 10 ^ 9) = Finite gflops" by blast
  have giga: "int_to_float (10 ^ 9) = Inr (Finite (10 ^ 9))"
    using int_to_float_exact [of "10 ^ 9"] by simp
  have "section_entry opr dim_sizes m (itspace, prof) =
          Inr (timer prof,
               \<lparr>time = t, gflopss = round_double (gflops / t),
                oi = round_double (flops / traffic), itershape = ?its, datashape = ds\<rparr>)"
    using assms(2,3,5) r1 r2 fl tr tr0 gf giga
    by (simp add: section_entry_def Let_def section_flops_def section_traffic_def
          float_div_int_def float_div_def)
  with fl tr gf show ?thesis by blast
qed

lemma section_entry_key:
  "section_entry opr dim_sizes m (itspace, prof) = Inr (key, entry) \<Longrightarrow> key = timer prof"
  by (auto simp: section_entry_def Let_def split: option.splits sum.splits if_splits)

lemma summary_loop_other:
  "summary_loop opr dim_sizes m secs acc = Inr summary \<Longrightarrow>
   key \<notin> (\<lambda>s. timer (snd s)) ` set secs \<Longrightarrow> map_of summary key = map_of acc key"
proof (induction secs arbitrary: acc)
  case Nil
  then show ?case by simp
next
  case (Cons sec secs)
  obtain itspace prof where sec: "sec = (itspace, prof)" by (cases sec)
  from Cons.prems(1) sec obtain k e where
    se: "section_entry opr dim_sizes m (itspace, prof) = Inr (k, e)"
    and rec: "summary_loop opr dim_sizes m secs (AList.update k e acc) = Inr summary"
    by (auto split: sum.splits)
  from section_entry_key [OF se] have k: "k = timer prof" .
  from Cons.prems(2) sec k have "key \<noteq> k" "key \<notin> (\<lambda>s. timer (snd s)) ` set secs" by auto
  with Cons.IH [OF rec] show ?case by (simp add: update_conv')
qed

lemma summary_loop_entry:
  "summary_loop opr dim_sizes m secs acc = Inr summary \<Longrightarrow>
   distinct (map (\<lambda>s. timer (snd s)) secs) \<Longrightarrow> sec \<in> set secs \<Longrightarrow>
   \<exists>entry. section_entry opr dim_sizes m sec = Inr (timer (snd sec), entry) \<and>
            map_of summary (timer (snd sec)) = Some entry"
proof (induction secs arbitrary: acc)
  case Nil
  then show ?case by simp
next
  case (Cons sec' secs)
  obtain itspace prof where sec': "sec' = (itspace, prof)" by (cases sec')
  from Cons.prems(1) sec' obtain k e where
    se: "section_entry opr dim_sizes m (itspace, prof) = Inr (k, e)"
    and rec: "summary_loop opr dim_sizes m secs (AList.update k e acc) = Inr summary"
    by (auto split: sum.splits)
  from section_entry_key [OF se] have k: "k = timer prof" .
  from Cons.prems(2) sec' have d: "timer prof \<notin> (\<lambda>s. timer (snd s)) ` set secs"
    "distinct (map (\<lambda>s. timer (snd s)) secs)" by auto
  show ?case
  proof (cases "sec = sec'")
    case True
    from summary_loop_other [OF rec d(1)] k have "map_of summary (timer prof) = Some e"
      by (simp add: update_conv')
    with True sec' se k show ?thesis by simp
  next
    case False
    with Cons.prems(3) have "sec \<in> set secs" by simp
    from Cons.IH [OF rec d(2) this] show ?thesis .
  qed
qed

lemma summary_loop_total:
  "\<forall>sec \<in> set secs. \<exists>r. section_entry opr dim_sizes m sec = Inr r \<Longrightarrow>
   \<exists>summary. summary_loop opr dim_sizes m secs acc = Inr summary \<and> (secs \<noteq> [] \<or> acc \<noteq> [] \<longrightarrow> summary \<noteq> [])"
proof (induction secs arbitrary: acc)
  case Nil
  then show ?case by simp
next
  case (Cons sec secs)
  from Cons.prems obtain k e where se: "section_entry opr dim_sizes m sec = Inr (k, e)"
    by fastforce
  from Cons.prems have "\<forall>sec \<in> set secs. \<exists>r. section_entry opr dim_sizes m sec = Inr r" by simp
  from Cons.IH [OF this, of "AList.update k e acc"] se show ?case by auto
qed

lemma max_scan_mem: "max_scan rest (k, e) \<in> insert k (fst ` set rest)"
proof (induction rest arbitrary: k e)
  case Nil
  then show ?case by simp
next
  case (Cons p rest)
  obtain k' e' where p: "p = (k', e')" by (cases p)
  show ?case
    using Cons.IH [of k' e'] Cons.IH [of k e] p by (cases "entry_less e e'") auto
qed

lemma max_key_mem: "summary \<noteq> [] \<Longrightarrow> \<exists>key. max_key summary = Inr key \<and> key \<in> fst ` set summary"
proof (cases summary)
  case Nil
  then show "summary \<noteq> [] \<Longrightarrow> ?thesis" by simp
next
  case (Cons p rest)
  obtain k e where "p = (k, e)" by (cases p)
  with Cons max_scan_mem [of rest k e] show ?thesis by auto
qed

lemma performance_metrics_aux:
  assumes secs: "sections opr \<noteq> []"
    and names: "distinct (map (\<lambda>s. timer (snd s)) (sections opr))"
    and main: "\<forall>s \<in> set (sections opr). timer (snd s) \<noteq> ''main''"
    and ok: "\<forall>(itspace, prof) \<in> set (sections opr).
               itspace \<noteq> [] \<and>
               (\<exists>t. map_of (profiler_timings m) (timer prof) = Some t \<and> t \<noteq> 0) \<and>
               \<bar>ops prof *
                prod_list (map (\<lambda>i. extent i (map_of dim_sizes (parent_or_self (it_dim i)))) itspace)\<bar>
                 \<le> 2 ^ 1023 \<and>
               (\<exists>ds. data_extents dim_sizes itspace = Inr ds \<and>
                     memory_accesses prof * prod_list ds \<noteq> 0 \<and>
                     \<bar>memory_accesses prof * prod_list ds * itemsize (dtype opr)\<bar> \<le> 2 ^ 1023)"
  shows "\<exists>summary. profile_summary opr dim_sizes m = Inr summary \<and>
           (\<forall>(itspace, prof) \<in> set (sections opr). \<exists>key entry.
              (key = timer prof \<or> key = ''main'') \<and> map_of summary key = Some entry \<and>
              section_entry opr dim_sizes m (itspace, prof) = Inr (timer prof, entry))"
proof -
  have tot: "\<forall>sec \<in> set (sections opr). \<exists>r. section_entry opr dim_sizes m sec = Inr r"
  proof
    fix sec assume mem: "sec \<in> set (sections opr)"
    obtain itspace prof where sec: "sec = (itspace, prof)" by (cases sec)
    from ok mem sec obtain t ds where "itspace \<noteq> []"
      "map_of (profiler_timings m) (timer prof) = Some t" "t \<noteq> 0"
      "\<bar>ops prof *
        prod_list (map (\<lambda>i. extent i (map_of dim_sizes (parent_or_self (it_dim i)))) itspace)\<bar>
         \<le> 2 ^ 1023"
      "data_extents dim_sizes itspace = Inr ds" "memory_accesses prof * prod_list ds \<noteq> 0"
      "\<bar>memory_accesses prof * prod_list ds * itemsize (dtype opr)\<bar> \<le> 2 ^ 1023"
      by fastforce
    from section_entry_Inr [OF this] sec show "\<exists>r. section_entry opr dim_sizes m sec = Inr r"
      by blast
  qed
  from summary_loop_total [OF tot, of "[]"] secs obtain summary where
    loop: "summary_loop opr dim_sizes m (sections opr) [] = Inr summary" and ne: "summary \<noteq> []"
    by blast
  from max_key_mem [OF ne] obtain key where key: "max_key summary = Inr key"
    and kmem: "key \<in> fst ` set summary" by blast
  from kmem obtain entry where entry: "map_of summary key = Some entry"
    by (metis domD dom_map_of_conv_image_fst)
  let ?final = "AList.update ''main'' entry (AList.delete key summary)"
  have ps: "profile_summary opr dim_sizes m = Inr ?final"
    using loop key entry by (simp add: profile_summary_def)
  have "\<forall>(itspace, prof) \<in> set (sections opr). \<exists>k e.
              (k = timer prof \<or> k = ''main'') \<and> map_of ?final k = Some e \<and>
              section_entry opr dim_sizes m (itspace, prof) = Inr (timer prof, e)"
  proof (clarify)
    fix itspace prof assume mem: "(itspace, prof) \<in> set (sections opr)"
    from summary_loop_entry [OF loop names mem] obtain e where
      e: "section_entry opr dim_sizes m (itspace, prof) = Inr (timer prof, e)"
         "map_of summary (timer prof) = Some e" by auto
    from main mem have nm: "timer prof \<noteq> ''main''" by auto
    show "\<exists>k e. (k = timer prof \<or> k = ''main'') \<and> map_of ?final k = Some e \<and>
              section_entry opr dim_sizes m (itspace, prof) = Inr (timer prof, e)"
    proof (cases "timer prof = key")
      case True
      with e entry have "e = entry" by simp
      then have "map_of ?final ''main'' = Some e" by (simp add: update_conv')
      with e(1) show ?thesis by blast
    next
      case False
      with nm e(2) have "map_of ?final (timer prof) = Some e"
        by (simp add: update_conv' delete_conv')
      with e(1) show ?thesis by blast
    qed
  qed
  with ps show ?thesis by blast
qed

lemma update_fresh: "k \<notin> fst ` set al \<Longrightarrow> AList.update k v al = al @ [(k, v)]"
  by (induction al) auto

lemma map_fst_update_mem: "k \<in> fst ` set al \<Longrightarrow> map fst (AList.update k v al) = map fst al"
  by (induction al) auto

lemma foldl_update_distinct:
  "distinct (map fst xs) \<Longrightarrow> fst ` set xs \<inter> fst ` set acc = {} \<Longrightarrow>
   foldl (\<lambda>d (k, v). AList.update k v d) acc xs = acc @ xs"
proof (induction xs arbitrary: acc)
  case Nil
  then show ?case by simp
next
  case (Cons x xs)
  obtain k v where x: "x = (k, v)" by (cases x)
  from Cons.prems x have fresh: "k \<notin> fst ` set acc" by auto
  from Cons.prems x have "distinct (map fst xs)" "fst ` set xs \<inter> fst ` set (acc @ [(k, v)]) = {}"
    by auto
  from Cons.IH [OF this] x fresh show ?case by (simp add: update_fresh)
qed

lemma OrderedDict_distinct_id: "distinct (map fst xs) \<Longrightarrow> OrderedDict xs = xs"
  using foldl_update_distinct [of xs "[]"] by (simp add: OrderedDict_def)

lemma distinct_foldl_update:
  "distinct (map fst acc) \<Longrightarrow> distinct (map fst (foldl (\<lambda>d (k, v). AList.update k v d) acc xs))"
  by (induction xs arbitrary: acc) (auto simp: distinct_update split: prod.splits)

lemma distinct_OrderedDict: "distinct (map fst (OrderedDict xs))"
  using distinct_foldl_update [of "[]" xs] by (simp add: OrderedDict_def)

lemma map_of_foldl_update:
  "map_of (foldl (\<lambda>d (k, v). AList.update k v d) acc xs) = map_of acc ++ map_of (rev xs)"
proof (induction xs arbitrary: acc)
  case Nil
  then show ?case by simp
next
  case (Cons x xs)
  obtain k v where x: "x = (k, v)" by (cases x)
  show ?case
    unfolding x by (simp add: Cons.IH update_conv' map_add_upd_left flip: map_add_assoc)
      (auto simp: map_add_def fun_eq_iff split: option.splits)
qed

lemma map_fst_foldl_update_subset:
  "fst ` set xs \<subseteq> fst ` set acc \<Longrightarrow>
   map fst (foldl (\<lambda>d (k, v). AList.update k v d) acc xs) = map fst acc"
proof (induction xs arbitrary: acc)
  case Nil
  then show ?case by simp
next
  case (Cons x xs)
  obtain k v where x: "x = (k, v)" by (cases x)
  from Cons.prems x have k: "k \<in> fst ` set acc" by auto
  then have keep: "map fst (AList.update k v acc) = map fst acc" by (rule map_fst_update_mem)
  then have "fst ` set (AList.update k v acc) = fst ` set acc"
    by (metis list.set_map)
  with Cons.prems have "fst ` set xs \<subseteq> fst ` set (AList.update k v acc)" by auto
  from Cons.IH [OF this] keep x show ?case by simp
qed

text \<open>The override loop: all shapes match.\<close>

lemma override_loop_match:
  "distinct (map fst o_vals) \<Longrightarrow>
   \<forall>(k, v) \<in> set o_vals. \<exists>f. map_of arguments k = Some (Symbolic f) \<and> shape_attr v = Some (sd_shape f) \<Longrightarrow>
   override_loop o_vals arguments = Inr (dict_update arguments o_vals)"
proof (induction o_vals arbitrary: arguments)
  case Nil
  then show ?case by (simp add: dict_update_def)
next
  case (Cons x o_vals)
  obtain k v where x: "x = (k, v)" by (cases x)
  from Cons.prems x obtain f where f: "map_of arguments k = Some (Symbolic f)"
    "shape_attr v = Some (sd_shape f)" by auto
  have "\<forall>(k', v') \<in> set o_vals. \<exists>f. map_of (AList.update k v arguments) k' = Some (Symbolic f) \<and>
          shape_attr v' = Some (sd_shape f)"
  proof (clarify)
    fix k' v' assume mem: "(k', v') \<in> set o_vals"
    with Cons.prems(1) x have "k' \<noteq> k" by force
    with Cons.prems(2) mem show "\<exists>f. map_of (AList.update k v arguments) k' = Some (Symbolic f) \<and>
          shape_attr v' = Some (sd_shape f)"
      by (fastforce simp: update_conv')
  qed
  from Cons.IH [OF _ this] Cons.prems(1) x f show ?case
    by (simp add: dict_update_def)
qed

text \<open>The override loop: some shape differs.\<close>

lemma override_loop_mismatch:
  "distinct (map fst o_vals) \<Longrightarrow>
   \<forall>(k, v) \<in> set o_vals. \<exists>f. map_of arguments k = Some (Symbolic f) \<and> shape_attr v \<noteq> None \<Longrightarrow>
   \<exists>(k, v) \<in> set o_vals. \<exists>f. map_of arguments k = Some (Symbolic f) \<and> shape_attr v \<noteq> Some (sd_shape f) \<Longrightarrow>
   override_loop o_vals arguments = Inl InvalidArgument"
proof (induction o_vals arbitrary: arguments)
  case Nil
  then show ?case by simp
next
  case (Cons x o_vals)
  obtain k v where x: "x = (k, v)" by (cases x)
  from Cons.prems(2) x obtain f s where f: "map_of arguments k = Some (Symbolic f)"
    "shape_attr v = Some s" by auto
  show ?case
  proof (cases "s = sd_shape f")
    case False
    with f x show ?thesis by simp
  next
    case True
    have other: "map_of (AList.update k v arguments) k' = map_of arguments k'"
      if "(k', v') \<in> set o_vals" for k' v'
    proof -
      from that Cons.prems(1) x have "k' \<noteq> k" by force
      then show ?thesis by (simp add: update_conv')
    qed
    have p2: "\<forall>(k', v') \<in> set o_vals. \<exists>f. map_of (AList.update k v arguments) k' = Some (Symbolic f) \<and>
          shape_attr v' \<noteq> None"
      using Cons.prems(2) other by fastforce
    from Cons.prems(3) x True f have "\<exists>(k', v') \<in> set o_vals. \<exists>f. map_of arguments k' = Some (Symbolic f) \<and>
          shape_attr v' \<noteq> Some (sd_shape f)" by auto
    with other have p3: "\<exists>(k', v') \<in> set o_vals. \<exists>f. map_of (AList.update k v arguments) k' = Some (Symbolic f) \<and>
          shape_attr v' \<noteq> Some (sd_shape f)" by fastforce
    from Cons.IH [OF _ p2 p3] Cons.prems(1) x f True show ?thesis by simp
  qed
qed


lemma is_SymbolicData_iff: "is_SymbolicData a \<longleftrightarrow> (\<exists>f. a = Symbolic f)"
  by (cases a) auto

lemma r_args_iff:
  "distinct (map fst arguments) \<Longrightarrow>
   k \<in> set (map fst (filter (\<lambda>(f_n, f). is_SymbolicData f) arguments)) \<longleftrightarrow>
   (\<exists>f. map_of arguments k = Some (Symbolic f))"
  by (auto simp: is_SymbolicData_iff image_iff)

lemma overrides_o_vals:
  assumes "distinct (map fst kwargs)" "distinct (map fst arguments)"
  shows "overrides kwargs arguments =
           override_loop (filter (\<lambda>arg. \<exists>f. map_of arguments (fst arg) = Some (Symbolic f)) kwargs) arguments"
proof -
  have eq: "filter (\<lambda>arg. fst arg \<in> set (map fst (filter (\<lambda>(f_n, f). is_SymbolicData f) arguments))) kwargs
      = filter (\<lambda>arg. \<exists>f. map_of arguments (fst arg) = Some (Symbolic f)) kwargs"
    using r_args_iff [OF assms(2)] by (intro filter_cong) auto
  have "distinct (map fst (filter (\<lambda>arg. \<exists>f. map_of arguments (fst arg) = Some (Symbolic f)) kwargs))"
    using assms(1) by (simp add: distinct_map_filter)
  then show ?thesis
    unfolding overrides_def Let_def eq by (simp add: OrderedDict_distinct_id)
qed

lemma map_of_filter_key:
  "map_of (filter (\<lambda>arg. P (fst arg)) xs) k = (if P k then map_of xs k else None)"
  by (induction xs) auto













lemma block_size_value: "fst (block_size v ext ma) = fst (block_size v ext True)"
  by (cases v) auto

lemma block_sizes_Cons_Inr:
  assumes "block_sizes (b # bs) dim_sizes acc ma = Inr r"
  obtains ext where
    "(case map_of dim_sizes (original_dim b) of
        Some n \<Rightarrow> Some n | None \<Rightarrow> dim_size (original_dim b)) = Some ext"
    "block_sizes bs dim_sizes
       (AList.update (argument b) (fst (block_size (blk_value b) ext ma)) acc)
       (snd (block_size (blk_value b) ext ma)) = Inr r"
proof (cases "case map_of dim_sizes (original_dim b) of
        Some n \<Rightarrow> Some n | None \<Rightarrow> dim_size (original_dim b)")
  case None
  with assms show ?thesis by simp
next
  case (Some ext)
  with assms that [of ext] show ?thesis by (simp add: case_prod_beta)
qed

lemma block_sizes_other:
  "block_sizes bs dim_sizes acc ma = Inr (dle, ma') \<Longrightarrow> k \<notin> argument ` set bs \<Longrightarrow>
   map_of dle k = map_of acc k"
proof (induction bs arbitrary: acc ma)
  case Nil
  then show ?case by simp
next
  case (Cons b bs)
  from Cons.prems(1) obtain ext where
    ext: "(case map_of dim_sizes (original_dim b) of
             Some n \<Rightarrow> Some n | None \<Rightarrow> dim_size (original_dim b)) = Some ext"
    and rest: "block_sizes bs dim_sizes
             (AList.update (argument b) (fst (block_size (blk_value b) ext ma)) acc)
             (snd (block_size (blk_value b) ext ma)) = Inr (dle, ma')"
    by (rule block_sizes_Cons_Inr)
  from Cons.prems(2) have "k \<noteq> argument b" "k \<notin> argument ` set bs" by auto
  with Cons.IH [OF rest] show ?case by (simp add: update_conv')
qed

lemma block_sizes_keys:
  "block_sizes bs dim_sizes acc ma = Inr (dle, ma') \<Longrightarrow>
   fst ` set dle = fst ` set acc \<union> argument ` set bs \<and>
   (distinct (map fst acc) \<longrightarrow> distinct (map fst dle))"
proof (induction bs arbitrary: acc ma)
  case Nil
  then show ?case by simp
next
  case (Cons b bs)
  from Cons.prems(1) obtain ext where
    ext: "(case map_of dim_sizes (original_dim b) of
             Some n \<Rightarrow> Some n | None \<Rightarrow> dim_size (original_dim b)) = Some ext"
    and rest: "block_sizes bs dim_sizes
             (AList.update (argument b) (fst (block_size (blk_value b) ext ma)) acc)
             (snd (block_size (blk_value b) ext ma)) = Inr (dle, ma')"
    by (rule block_sizes_Cons_Inr)
  from Cons.IH [OF rest] show ?case
    by (auto simp: dom_update distinct_update)
qed

lemma block_sizes_entry:
  "block_sizes bs dim_sizes acc ma = Inr (dle, ma') \<Longrightarrow> b \<in> set bs \<Longrightarrow>
   distinct (map argument bs) \<Longrightarrow>
   \<exists>ext. (case map_of dim_sizes (original_dim b) of
             Some n \<Rightarrow> Some n | None \<Rightarrow> dim_size (original_dim b)) = Some ext \<and>
          map_of dle (argument b) = Some (fst (block_size (blk_value b) ext True))"
proof (induction bs arbitrary: acc ma)
  case Nil
  then show ?case by simp
next
  case (Cons b' bs)
  from Cons.prems(1) obtain ext where
    ext: "(case map_of dim_sizes (original_dim b') of
             Some n \<Rightarrow> Some n | None \<Rightarrow> dim_size (original_dim b')) = Some ext"
    and rest: "block_sizes bs dim_sizes
             (AList.update (argument b') (fst (block_size (blk_value b') ext ma)) acc)
             (snd (block_size (blk_value b') ext ma)) = Inr (dle, ma')"
    by (rule block_sizes_Cons_Inr)
  show ?case
  proof (cases "b = b'")
    case True
    from Cons.prems(3) have "argument b' \<notin> argument ` set bs" by simp
    from block_sizes_other [OF rest this]
    have "map_of dle (argument b') = Some (fst (block_size (blk_value b') ext ma))"
      by (simp add: update_conv')
    with ext True block_size_value [of "blk_value b'" ext ma] show ?thesis by auto
  next
    case False
    with Cons.prems have "b \<in> set bs" "distinct (map argument bs)" by auto
    from Cons.IH [OF rest this] show ?thesis .
  qed
qed

lemma block_sizes_False:
  "block_sizes bs dim_sizes acc False = Inr (dle, ma') \<Longrightarrow> \<not> ma'"
proof (induction bs arbitrary: acc)
  case Nil
  then show ?case by simp
next
  case (Cons b bs)
  from Cons.prems(1) obtain ext where
    ext: "(case map_of dim_sizes (original_dim b) of
             Some n \<Rightarrow> Some n | None \<Rightarrow> dim_size (original_dim b)) = Some ext"
    and rest: "block_sizes bs dim_sizes
             (AList.update (argument b) (fst (block_size (blk_value b) ext False)) acc)
             (snd (block_size (blk_value b) ext False)) = Inr (dle, ma')"
    by (rule block_sizes_Cons_Inr)
  have "snd (block_size (blk_value b) ext False) = False"
    by (cases "blk_value b") auto
  with rest Cons.IH show ?case by auto
qed

lemma block_sizes_fixed:
  "block_sizes bs dim_sizes acc ma = Inr (dle, ma') \<Longrightarrow> b \<in> set bs \<Longrightarrow>
   blk_value b = Fixed v \<Longrightarrow> v \<noteq> 0 \<Longrightarrow> \<not> ma'"
proof (induction bs arbitrary: acc ma)
  case Nil
  then show ?case by simp
next
  case (Cons b' bs)
  from Cons.prems(1) obtain ext where
    ext: "(case map_of dim_sizes (original_dim b') of
             Some n \<Rightarrow> Some n | None \<Rightarrow> dim_size (original_dim b')) = Some ext"
    and rest: "block_sizes bs dim_sizes
             (AList.update (argument b') (fst (block_size (blk_value b') ext ma)) acc)
             (snd (block_size (blk_value b') ext ma)) = Inr (dle, ma')"
    by (rule block_sizes_Cons_Inr)
  show ?case
  proof (cases "b = b'")
    case True
    with Cons.prems(3,4) have "snd (block_size (blk_value b') ext ma) = False" by simp
    with rest show ?thesis by (auto dest: block_sizes_False)
  next
    case False
    with Cons.prems have "b \<in> set bs" by auto
    from Cons.IH [OF rest this Cons.prems(3,4)] show ?thesis .
  qed
qed

lemma block_sizes_requested:
  "block_sizes bs dim_sizes acc ma = Inr (dle, ma') \<Longrightarrow> ma' \<Longrightarrow> ma"
  by (cases ma) (auto dest: block_sizes_False)

lemma insert_sizes_Inr_bind:
  "bind_arguments opr args kwargs = Inr (arguments, dim_sizes, maybe_autotune) \<Longrightarrow>
   \<exists>A1 A2 ds2 ds3 dle.
     overrides kwargs (initial_arguments opr) = Inr A1 \<and>
     traverse_positional kwargs
       (zip (symbolic_values (map snd A1)) (if length args = 0 then parameters opr else args))
       A1 [] = Inr (A2, ds2) \<and>
     buffered_parents (filter is_Buffered (map fst ds2)) ds2 = Inr ds3 \<and>
     block_sizes (dle_arguments opr) ds3 [] (autotune_requested kwargs) = Inr (dle, maybe_autotune) \<and>
     dim_sizes = dict_update ds3 dle \<and>
     insert_sizes (dimension_values (map snd A2)) dim_sizes A2 = Inr arguments"
  by (auto simp: bind_arguments_def Let_def split: sum.splits prod.splits)


lemma insert_sizes_other:
  "insert_sizes dl dim_sizes A = Inr A' \<Longrightarrow> k \<notin> dim_name ` set dl \<Longrightarrow> map_of A' k = map_of A k"
proof (induction dl arbitrary: A)
  case Nil
  then show ?case by simp
next
  case (Cons d dl)
  from Cons.prems(1) obtain n where
    rest: "insert_sizes dl dim_sizes (AList.update (dim_name d) (IntArg n) A) = Inr A'"
    by (auto split: option.splits)
  from Cons.prems(2) have "k \<noteq> dim_name d" "k \<notin> dim_name ` set dl" by auto
  with Cons.IH [OF rest] show ?case by (simp add: update_conv')
qed

lemma insert_sizes_entry:
  "insert_sizes dl dim_sizes A = Inr A' \<Longrightarrow> d \<in> set dl \<Longrightarrow>
   \<forall>d' \<in> set dl. dim_name d' = dim_name d \<longrightarrow> d' = d \<Longrightarrow>
   \<exists>n. map_of dim_sizes d = Some n \<and> map_of A' (dim_name d) = Some (IntArg n)"
proof (induction dl arbitrary: A)
  case Nil
  then show ?case by simp
next
  case (Cons d' dl)
  from Cons.prems(1) obtain n where n: "map_of dim_sizes d' = Some n"
    and rest: "insert_sizes dl dim_sizes (AList.update (dim_name d') (IntArg n) A) = Inr A'"
    by (auto split: option.splits)
  show ?case
  proof (cases "d \<in> set dl")
    case True
    from Cons.IH [OF rest True] Cons.prems(3) show ?thesis by auto
  next
    case False
    with Cons.prems(2) have eq: "d' = d" by simp
    from False Cons.prems(3) have "dim_name d \<notin> dim_name ` set dl" by auto
    from insert_sizes_other [OF rest this] eq n show ?thesis by (simp add: update_conv')
  qed
qed

lemma dimension_values_iff: "d \<in> set (dimension_values vs) \<longleftrightarrow> DimensionArg d \<in> set vs"
  by (induction vs rule: dimension_values.induct) auto

lemma symbolic_values_append:
  "symbolic_values (xs @ ys) = symbolic_values xs @ symbolic_values ys"
  by (induction xs rule: symbolic_values.induct) auto

lemma symbolic_values_length: "length (symbolic_values xs) \<le> length xs"
  by (induction xs rule: symbolic_values.induct) auto

lemma symbolic_values_dims: "symbolic_values (map DimensionArg ds) = []"
  by (induction ds) auto

lemma override_loop_frame:
  "override_loop o_vals A = Inr A' \<Longrightarrow>
   map fst A' = map fst A \<and>
   (\<forall>k. k \<notin> fst ` set o_vals \<longrightarrow> map_of A' k = map_of A k) \<and>
   (\<forall>k v. map_of A' k = Some v \<longrightarrow> map_of A k = Some v \<or> shape_attr v \<noteq> None)"
proof (induction o_vals arbitrary: A)
  case Nil
  then show ?case by simp
next
  case (Cons p o_vals)
  obtain k v where p: "p = (k, v)" by (cases p)
  from Cons.prems p obtain a where a: "map_of A k = Some a" and sv: "shape_attr v \<noteq> None"
    and rest: "override_loop o_vals (AList.update k v A) = Inr A'"
    by (auto split: option.splits if_splits)
  from a have "k \<in> fst ` set A" by (metis domI dom_map_of_conv_image_fst)
  then have keys: "map fst (AList.update k v A) = map fst A"
    by (induction A) auto
  from Cons.IH [OF rest] have ih: "map fst A' = map fst (AList.update k v A)"
    "\<And>k'. k' \<notin> fst ` set o_vals \<Longrightarrow> map_of A' k' = map_of (AList.update k v A) k'"
    "\<And>k' v'. map_of A' k' = Some v' \<Longrightarrow>
        map_of (AList.update k v A) k' = Some v' \<or> shape_attr v' \<noteq> None"
    by auto
  show ?case
  proof (intro conjI allI impI)
    show "map fst A' = map fst A" using ih(1) keys by simp
  next
    fix k' assume "k' \<notin> fst ` set (p # o_vals)"
    with p have "k' \<noteq> k" "k' \<notin> fst ` set o_vals" by auto
    with ih(2) show "map_of A' k' = map_of A k'" by (simp add: update_conv')
  next
    fix k' v' assume "map_of A' k' = Some v'"
    from ih(3) [OF this] sv show "map_of A k' = Some v' \<or> shape_attr v' \<noteq> None"
      by (cases "k' = k") (auto simp: update_conv')
  qed
qed

lemma keys_foldl_update:
  "fst ` set (foldl (\<lambda>d (k, v). AList.update k v d) acc xs) = fst ` set acc \<union> fst ` set xs"
proof (induction xs arbitrary: acc)
  case Nil
  then show ?case by simp
next
  case (Cons x xs)
  obtain k v where x: "x = (k, v)" by (cases x)
  have "fst ` set (AList.update k v acc) = {k} \<union> fst ` set acc" by (rule dom_update)
  with Cons.IH [of "AList.update k v acc"] x show ?case by auto
qed

lemma traverse_positional_frame:
  "traverse_positional kwargs prs A dim_sizes = Inr (A', dim_sizes') \<Longrightarrow>
   (\<forall>k. k \<notin> param_name ` snd ` set prs \<longrightarrow> map_of A' k = map_of A k) \<and>
   (\<forall>v \<in> snd ` set A'. v \<in> snd ` set A \<or> (\<exists>a. v = Array a))"
proof (induction prs arbitrary: A dim_sizes)
  case Nil
  then show ?case by simp
next
  case (Cons p prs)
  obtain f arg where p: "p = (f, arg)" by (cases p)
  from Cons.prems p obtain ds1 where
    rest: "traverse_positional kwargs prs
             (AList.update (param_name arg) (Array (sd_data f)) A) ds1 = Inr (A', dim_sizes')"
    by (auto split: sum.splits)
  have vals: "v \<in> snd ` set A \<or> v = Array (sd_data f)"
    if "v \<in> snd ` set (AList.update (param_name arg) (Array (sd_data f)) A)" for v
    using that by (induction A) (auto split: if_splits)
  from Cons.IH [OF rest] have ih:
    "\<And>k. k \<notin> param_name ` snd ` set prs \<Longrightarrow>
        map_of A' k = map_of (AList.update (param_name arg) (Array (sd_data f)) A) k"
    "\<And>v. v \<in> snd ` set A' \<Longrightarrow>
        v \<in> snd ` set (AList.update (param_name arg) (Array (sd_data f)) A) \<or> (\<exists>a. v = Array a)"
    by auto
  show ?case
  proof (intro conjI allI impI ballI)
    fix k assume "k \<notin> param_name ` snd ` set (p # prs)"
    with p have "k \<noteq> param_name arg" "k \<notin> param_name ` snd ` set prs" by auto
    with ih(1) show "map_of A' k = map_of A k" by (simp add: update_conv')
  next
    fix v assume "v \<in> snd ` set A'"
    from ih(2) [OF this] vals show "v \<in> snd ` set A \<or> (\<exists>a. v = Array a)" by blast
  qed
qed


lemma symbolic_values_Nil: "\<forall>v \<in> set vs. \<exists>d. v = DimensionArg d \<Longrightarrow> symbolic_values vs = []"
  by (induction vs rule: symbolic_values.induct) auto

lemma overrides_frame:
  assumes "overrides kwargs A = Inr A'" "distinct (map fst A)"
  shows "map fst A' = map fst A"
    and "\<And>k. \<not> (\<exists>f. map_of A k = Some (Symbolic f)) \<Longrightarrow> map_of A' k = map_of A k"
    and "\<And>k v. map_of A' k = Some v \<Longrightarrow> map_of A k = Some v \<or> shape_attr v \<noteq> None"
proof -
  let ?r = "map fst (filter (\<lambda>(f_n, f). is_SymbolicData f) A)"
  let ?o = "OrderedDict (filter (\<lambda>arg. fst arg \<in> set ?r) kwargs)"
  from assms(1) have loop: "override_loop ?o A = Inr A'"
    by (simp add: overrides_def Let_def)
  note fr = override_loop_frame [OF loop]
  from fr show "map fst A' = map fst A" by simp
  have keys: "fst ` set ?o \<subseteq> set ?r"
    unfolding OrderedDict_def keys_foldl_update by auto
  show "map_of A' k = map_of A k" if "\<not> (\<exists>f. map_of A k = Some (Symbolic f))" for k
  proof -
    from that r_args_iff [OF assms(2), of k] have "k \<notin> set ?r" by simp
    with keys have "k \<notin> fst ` set ?o" by auto
    with fr show ?thesis by simp
  qed
  show "map_of A k = Some v \<or> shape_attr v \<noteq> None" if "map_of A' k = Some v" for k v
    using fr that by blast
qed

lemma initial_arguments_distinct:
  "distinct (map param_name (parameters opr)) \<Longrightarrow>
   initial_arguments opr = map (\<lambda>arg. (param_name arg, as_argument arg)) (parameters opr)"
  unfolding initial_arguments_def by (rule OrderedDict_distinct_id) (simp add: comp_def)

lemma unbound_dimension_kept:
  assumes names: "distinct (map param_name (parameters opr))"
    and order: "parameters opr = map DataParam fs @ map DimParam ds"
    and d: "d \<in> set ds"
    and ov: "overrides kwargs (initial_arguments opr) = Inr A1"
    and tr: "traverse_positional kwargs
               (zip (symbolic_values (map snd A1)) (if length args = 0 then parameters opr else args))
               A1 dim_sizes0 = Inr (A2, dim_sizes2)"
    and pos: "dim_name d \<notin> param_name ` set args"
  shows "map_of A2 (dim_name d) = Some (DimensionArg d)"
    and "\<forall>d'. DimensionArg d' \<in> snd ` set A2 \<longrightarrow> d' \<in> set ds"
proof -
  let ?A0 = "initial_arguments opr"
  have A0: "?A0 = map (\<lambda>arg. (param_name arg, as_argument arg)) (parameters opr)"
    by (rule initial_arguments_distinct [OF names])
  have dA0: "distinct (map fst ?A0)" using names by (simp add: A0 comp_def)
  note fr = overrides_frame [OF ov dA0]
  have dA1: "distinct (map fst A1)" using fr(1) dA0 by simp
  have dimlook: "map_of ?A0 (dim_name d') = Some (DimensionArg d')" if "d' \<in> set ds" for d'
  proof -
    from that order have "(dim_name d', DimensionArg d') \<in> set ?A0"
      by (force simp: A0 image_iff)
    with dA0 show ?thesis by (rule map_of_is_SomeI)
  qed
  have dimlook1: "map_of A1 (dim_name d') = Some (DimensionArg d')" if "d' \<in> set ds" for d'
    using fr(2) [of "dim_name d'"] dimlook [OF that] by simp
  have datadim: "sd_name f \<noteq> dim_name d'" if "f \<in> set fs" "d' \<in> set ds" for f d'
    using names that unfolding order by (auto simp: comp_def)
  \<comment> \<open>the symbolic values all come from the data part\<close>
  let ?n = "length fs"
  have keys1: "map fst A1 = map sd_name fs @ map dim_name ds"
    using fr(1) by (simp add: A0 order comp_def)
  have "\<forall>v \<in> set (map snd (drop ?n A1)). \<exists>d'. v = DimensionArg d'"
  proof
    fix v assume "v \<in> set (map snd (drop ?n A1))"
    then obtain k where kv: "(k, v) \<in> set (drop ?n A1)" by auto
    then have "k \<in> set (map fst (drop ?n A1))" by force
    also have "map fst (drop ?n A1) = map dim_name ds"
      using keys1 by (simp flip: drop_map)
    finally obtain d' where d': "d' \<in> set ds" "k = dim_name d'" by auto
    from kv have "(k, v) \<in> set A1" by (rule in_set_dropD)
    with dA1 have "map_of A1 k = Some v" by (rule map_of_is_SomeI)
    with dimlook1 [OF d'(1)] d'(2) have "v = DimensionArg d'" by simp
    then show "\<exists>d'. v = DimensionArg d'" by blast
  qed
  then have "symbolic_values (map snd (drop ?n A1)) = []" by (rule symbolic_values_Nil)
  moreover have "map snd A1 = map snd (take ?n A1) @ map snd (drop ?n A1)"
    by (simp flip: map_append)
  ultimately have "symbolic_values (map snd A1) = symbolic_values (map snd (take ?n A1))"
    by (metis append_Nil2 symbolic_values_append)
  then have len: "length (symbolic_values (map snd A1)) \<le> ?n"
    using symbolic_values_length [of "map snd (take ?n A1)"] by simp
  \<comment> \<open>so no positional pair writes under the name of the dimension\<close>
  let ?args = "if length args = 0 then parameters opr else args"
  have nowrite: "dim_name d \<notin> param_name ` snd ` set (zip (symbolic_values (map snd A1)) ?args)"
  proof (cases "length args = 0")
    case False
    have "snd ` set (zip (symbolic_values (map snd A1)) args) \<subseteq> set args"
      by (auto dest: set_zip_rightD)
    with pos False show ?thesis by auto
  next
    case True
    show ?thesis
    proof
      assume "dim_name d \<in> param_name ` snd ` set (zip (symbolic_values (map snd A1)) ?args)"
      with True obtain x p where xp: "(x, p) \<in> set (zip (symbolic_values (map snd A1)) (parameters opr))"
        and nm: "dim_name d = param_name p" by auto
      from xp obtain i where i: "i < length (symbolic_values (map snd A1))"
        "i < length (parameters opr)" "p = parameters opr ! i"
        by (auto simp: in_set_zip)
      from i(1) len have "i < ?n" by simp
      with i(3) order have "p = DataParam (fs ! i)" "fs ! i \<in> set fs"
        by (simp_all add: nth_append)
      with nm datadim [OF _ d] show False by auto
    qed
  qed
  note tf = traverse_positional_frame [OF tr]
  from tf nowrite have "map_of A2 (dim_name d) = map_of A1 (dim_name d)" by blast
  with dimlook1 [OF d] show "map_of A2 (dim_name d) = Some (DimensionArg d)" by simp
  show "\<forall>d'. DimensionArg d' \<in> snd ` set A2 \<longrightarrow> d' \<in> set ds"
  proof (intro allI impI)
    fix d' assume "DimensionArg d' \<in> snd ` set A2"
    with tf have "DimensionArg d' \<in> snd ` set A1" by blast
    then obtain k where "(k, DimensionArg d') \<in> set A1" by force
    with dA1 have "map_of A1 k = Some (DimensionArg d')" by (rule map_of_is_SomeI)
    from fr(3) [OF this] have "map_of ?A0 k = Some (DimensionArg d')" by simp
    then have "(k, DimensionArg d') \<in> set ?A0" by (rule map_of_SomeD)
    then obtain p where p: "p \<in> set (parameters opr)" "as_argument p = DimensionArg d'"
      by (auto simp: A0)
    from p(2) have "p = DimParam d'" by (cases p) auto
    with p(1) order show "d' \<in> set ds" by auto
  qed
qed


lemma map_of_dict_update:
  "distinct (map fst other) \<Longrightarrow> map_of (dict_update d other) = map_of d ++ map_of other"
proof -
  assume d: "distinct (map fst other)"
  then have "distinct (map fst (rev other))" by (simp add: rev_map [symmetric])
  then have "map_of (rev other) = map_of other"
    using d by (intro map_of_inject_set [THEN iffD2]) auto
  then show ?thesis by (simp add: dict_update_def map_of_foldl_update)
qed

lemmas ex_simps = ex_operator_def ex_u_def ex_x_def ex_y_def ex_x_block_def ex_loop_def
  ex_machine_def ex_options_def ex_time_def
  bind_arguments_def initial_arguments_def OrderedDict_def overrides_def
  infer_dim_def getitem_def dict_update_def autotune_requested_def
  operator_arguments_def extra_arguments_def

lemma map_fst_update:
  "map fst (AList.update k v al) = (if k \<in> fst ` set al then map fst al else map fst al @ [k])"
  by (induction al) auto

lemma OrderedDict_keys: "fst ` set (OrderedDict xs) = fst ` set xs"
  by (simp add: OrderedDict_def keys_foldl_update)

lemma blocking_mapper_distinct: "distinct (map fst (blocking_mapper opr))"
  by (simp add: blocking_mapper_def distinct_OrderedDict)

text \<open>Binding one candidate.\<close>

lemma bind_blocksize_result:
  assumes "fst ` set c \<subseteq> fst ` set mapper"
    and "\<forall>b \<in> snd ` set mapper. dim_name (original_dim b) \<notin> fst ` set mapper \<union> set sq"
    and "fst ` set items \<subseteq> fst ` set A"
  shows "\<exists>illegal A'. bind_blocksize mapper sq z c items A = Inr (illegal, A') \<and>
           map fst A' = map fst A \<and>
           (\<forall>k. k \<notin> fst ` set mapper \<union> set sq \<longrightarrow> map_of A' k = map_of A k) \<and>
           (illegal \<longleftrightarrow>
              (\<exists>k \<in> fst ` set items. \<exists>val b. map_of c k = Some val \<and> map_of mapper k = Some b \<and>
                 iter_end (iteration b) (map_of A (dim_name (original_dim b))) < val))"
  using assms(3)
proof (induction items arbitrary: A)
  case Nil
  show ?case by (rule exI [of _ False], rule exI [of _ A]) simp
next
  case (Cons p items)
  obtain k v where p: "p = (k, v)" by (cases p)
  from Cons.prems p have kat: "k \<in> fst ` set A" and sub: "fst ` set items \<subseteq> fst ` set A"
    by auto
  have step: "\<exists>illegal A'. bind_blocksize mapper sq z c items (AList.update k w A) = Inr (illegal, A') \<and>
           map fst A' = map fst A \<and>
           (\<forall>k'. k' \<notin> fst ` set mapper \<union> set sq \<longrightarrow> map_of A' k' = map_of A k') \<and>
           (illegal \<longleftrightarrow>
              (\<exists>k \<in> fst ` set items. \<exists>val b. map_of c k = Some val \<and> map_of mapper k = Some b \<and>
                 iter_end (iteration b) (map_of A (dim_name (original_dim b))) < val))"
    if kin: "k \<in> fst ` set mapper \<union> set sq" for w
  proof -
    have keys: "map fst (AList.update k w A) = map fst A"
      using kat by (simp add: map_fst_update)
    then have "fst ` set (AList.update k w A) = fst ` set A"
      by (metis list.set_map)
    with sub have "fst ` set items \<subseteq> fst ` set (AList.update k w A)" by simp
    from Cons.IH [OF this] obtain illegal A' where
      r: "bind_blocksize mapper sq z c items (AList.update k w A) = Inr (illegal, A')"
      "map fst A' = map fst (AList.update k w A)"
      "\<forall>k'. k' \<notin> fst ` set mapper \<union> set sq \<longrightarrow> map_of A' k' = map_of (AList.update k w A) k'"
      "illegal \<longleftrightarrow>
              (\<exists>k' \<in> fst ` set items. \<exists>val b. map_of c k' = Some val \<and> map_of mapper k' = Some b \<and>
                 iter_end (iteration b) (map_of (AList.update k w A) (dim_name (original_dim b))) < val)"
      by blast
    have gov: "map_of (AList.update k w A) (dim_name (original_dim b)) = map_of A (dim_name (original_dim b))"
      if "map_of mapper k' = Some b" for k' b
    proof -
      from that have "b \<in> snd ` set mapper" by (force dest: map_of_SomeD)
      with assms(2) kin have "dim_name (original_dim b) \<noteq> k" by auto
      then show ?thesis by (simp add: update_conv')
    qed
    have other: "map_of (AList.update k w A) k' = map_of A k'" if "k' \<notin> fst ` set mapper \<union> set sq" for k'
      using that kin by (auto simp: update_conv')
    from r(4) have ill: "illegal \<longleftrightarrow>
              (\<exists>k' \<in> fst ` set items. \<exists>val b. map_of c k' = Some val \<and> map_of mapper k' = Some b \<and>
                 iter_end (iteration b) (map_of A (dim_name (original_dim b))) < val)"
      by (simp add: gov cong: conj_cong)
    from r(1) r(2) keys r(3) other ill show ?thesis by auto
  qed
  show ?case
  proof (cases "map_of c k")
    case None
    show ?thesis
    proof (cases "k \<in> set sq")
      case True
      from step [of "IntArg z"] True None p show ?thesis by auto
    next
      case False
      from Cons.IH [OF sub] None False p show ?thesis by auto
    qed
  next
    case (Some val)
    then have "k \<in> fst ` set c" by (force dest: map_of_SomeD)
    with assms(1) have kin: "k \<in> fst ` set mapper" by auto
    then obtain b where b: "map_of mapper k = Some b"
      by (metis domD dom_map_of_conv_image_fst)
    show ?thesis
    proof (cases "val \<le> iter_end (iteration b) (map_of A (dim_name (original_dim b)))")
      case True
      from step [of "IntArg val"] kin obtain illegal A' where
        r: "bind_blocksize mapper sq z c items (AList.update k (IntArg val) A) = Inr (illegal, A')"
        "map fst A' = map fst A"
        "\<forall>k'. k' \<notin> fst ` set mapper \<union> set sq \<longrightarrow> map_of A' k' = map_of A k'"
        "illegal \<longleftrightarrow>
              (\<exists>k \<in> fst ` set items. \<exists>val b. map_of c k = Some val \<and> map_of mapper k = Some b \<and>
                 iter_end (iteration b) (map_of A (dim_name (original_dim b))) < val)"
        by blast
      have "bind_blocksize mapper sq z c (p # items) A = Inr (illegal, A')"
        using p Some b True r(1) by simp
      moreover have "illegal \<longleftrightarrow>
              (\<exists>k \<in> fst ` set (p # items). \<exists>val b. map_of c k = Some val \<and> map_of mapper k = Some b \<and>
                 iter_end (iteration b) (map_of A (dim_name (original_dim b))) < val)"
        using r(4) p Some b True by auto
      ultimately show ?thesis using r(2,3) by blast
    next
      case False
      have "bind_blocksize mapper sq z c (p # items) A = Inr (True, A)"
        using p Some b False by simp
      moreover have "\<exists>k \<in> fst ` set (p # items). \<exists>val b. map_of c k = Some val \<and> map_of mapper k = Some b \<and>
                 iter_end (iteration b) (map_of A (dim_name (original_dim b))) < val"
        using p Some b False by auto
      ultimately show ?thesis by blast
    qed
  qed
qed


text \<open>Once the governing dimensions are out of reach of the search, the test of the loop
  is the spec's test.\<close>

lemma illegal_iff_exceeds:
  assumes "distinct (map fst mapper)" "fst ` set mapper \<subseteq> fst ` set A"
    and "\<forall>b \<in> snd ` set mapper.
           map_of A (dim_name (original_dim b)) = map_of arguments (dim_name (original_dim b))"
  shows "(\<exists>k \<in> fst ` set A. \<exists>val b. map_of c k = Some val \<and> map_of mapper k = Some b \<and>
             iter_end (iteration b) (map_of A (dim_name (original_dim b))) < val)
         \<longleftrightarrow> exceeds_extent mapper arguments c"
proof
  assume "\<exists>k \<in> fst ` set A. \<exists>val b. map_of c k = Some val \<and> map_of mapper k = Some b \<and>
             iter_end (iteration b) (map_of A (dim_name (original_dim b))) < val"
  then obtain k val b where k: "map_of c k = Some val" "map_of mapper k = Some b"
    "iter_end (iteration b) (map_of A (dim_name (original_dim b))) < val" by blast
  from k(2) have mem: "(k, b) \<in> set mapper" by (rule map_of_SomeD)
  then have "b \<in> snd ` set mapper" by force
  with assms(3) have "map_of A (dim_name (original_dim b)) = map_of arguments (dim_name (original_dim b))"
    by (rule bspec)
  with k(3) have "iter_end (iteration b) (map_of arguments (dim_name (original_dim b))) < val"
    by simp
  with mem k(1) show "exceeds_extent mapper arguments c"
    unfolding exceeds_extent_def by blast
next
  assume "exceeds_extent mapper arguments c"
  then obtain k b val where mem: "(k, b) \<in> set mapper" and k: "map_of c k = Some val"
    "iter_end (iteration b) (map_of arguments (dim_name (original_dim b))) < val"
    unfolding exceeds_extent_def by blast
  from mem assms(1) have look: "map_of mapper k = Some b" by (simp add: map_of_is_SomeI)
  from mem have bm: "b \<in> snd ` set mapper" and km: "k \<in> fst ` set mapper" by force+
  from assms(3) bm
  have "map_of A (dim_name (original_dim b)) = map_of arguments (dim_name (original_dim b))"
    by (rule bspec)
  with km assms(2) k(2) have "k \<in> fst ` set A"
    "iter_end (iteration b) (map_of A (dim_name (original_dim b))) < val" by auto
  with k(1) look show "\<exists>k \<in> fst ` set A. \<exists>val b. map_of c k = Some val \<and> map_of mapper k = Some b \<and>
             iter_end (iteration b) (map_of A (dim_name (original_dim b))) < val" by blast
qed

lemma extra_arguments_simp: "extra_arguments opr = [(s_name opr, TimerStruct)]"
  by (simp add: extra_arguments_def OrderedDict_def)

lemma dict_update_extra:
  "dict_update A (extra_arguments opr) = AList.update (s_name opr) TimerStruct A"
  by (simp add: extra_arguments_simp dict_update_def)

lemma trial_loop_timings:
  assumes gov: "\<forall>b \<in> snd ` set (blocking_mapper opr).
                  dim_name (original_dim b) \<notin> fst ` set (blocking_mapper opr) \<union> set (squeezable opr) \<union> {s_name opr}"
    and keys: "\<forall>c \<in> set cs. fst ` set c \<subseteq> fst ` set (blocking_mapper opr)"
    and inv: "fst ` set (blocking_mapper opr) \<subseteq> fst ` set A"
      "\<forall>b \<in> snd ` set (blocking_mapper opr).
         map_of A (dim_name (original_dim b)) = map_of arguments (dim_name (original_dim b))"
  shows "\<exists>timings' m'. trial_loop opts opr cs A timings m = (Inr timings', m') \<and>
           map fst timings' =
             foldl (\<lambda>ks c. if c \<in> set ks then ks else ks @ [c]) (map fst timings)
               (filter (\<lambda>c. \<not> exceeds_extent (blocking_mapper opr) arguments c) cs)"
  using keys inv
proof (induction cs arbitrary: A timings m)
  case Nil
  then show ?case by simp
next
  case (Cons c cs)
  let ?mapper = "blocking_mapper opr"
  from Cons.prems(1) have kc: "fst ` set c \<subseteq> fst ` set ?mapper"
    and kcs: "\<forall>c \<in> set cs. fst ` set c \<subseteq> fst ` set ?mapper" by auto
  from gov have gov': "\<forall>b \<in> snd ` set ?mapper.
       dim_name (original_dim b) \<notin> fst ` set ?mapper \<union> set (squeezable opr)" by auto
  from bind_blocksize_result [OF kc gov', of A A "at_squeezer opts"] obtain illegal A1 where
    r: "bind_blocksize ?mapper (squeezable opr) (at_squeezer opts) c A A = Inr (illegal, A1)"
    "map fst A1 = map fst A"
    "\<forall>k. k \<notin> fst ` set ?mapper \<union> set (squeezable opr) \<longrightarrow> map_of A1 k = map_of A k"
    "illegal \<longleftrightarrow>
       (\<exists>k \<in> fst ` set A. \<exists>val b. map_of c k = Some val \<and> map_of ?mapper k = Some b \<and>
          iter_end (iteration b) (map_of A (dim_name (original_dim b))) < val)"
    by auto
  from r(4) illegal_iff_exceeds [OF blocking_mapper_distinct Cons.prems(2,3)]
  have ill: "illegal \<longleftrightarrow> exceeds_extent ?mapper arguments c" by simp
  from r(2) have keys1: "fst ` set A1 = fst ` set A" by (metis list.set_map)
  with Cons.prems(2) have inv1a: "fst ` set ?mapper \<subseteq> fst ` set A1" by simp
  have inv1b: "\<forall>b \<in> snd ` set ?mapper.
         map_of A1 (dim_name (original_dim b)) = map_of arguments (dim_name (original_dim b))"
    using r(3) gov' Cons.prems(3) by auto
  show ?case
  proof (cases illegal)
    case True
    from Cons.IH [OF kcs inv1a inv1b, of timings m] True r(1) ill show ?thesis by simp
  next
    case False
    let ?A2 = "dict_update A1 (extra_arguments opr)"
    let ?m = "cfunction opr (map snd ?A2) m"
    let ?t = "AList.update c (sum_list (map snd (profiler_timings ?m))) timings"
    have "fst ` set ?A2 = {s_name opr} \<union> fst ` set A1"
      unfolding dict_update_extra by (rule dom_update)
    with inv1a have inv2a: "fst ` set ?mapper \<subseteq> fst ` set ?A2" by auto
    have inv2b: "\<forall>b \<in> snd ` set ?mapper.
         map_of ?A2 (dim_name (original_dim b)) = map_of arguments (dim_name (original_dim b))"
      using inv1b gov unfolding dict_update_extra by (auto simp: update_conv')
    have kt: "map fst ?t = (if c \<in> set (map fst timings) then map fst timings else map fst timings @ [c])"
      by (simp add: map_fst_update)
    from Cons.IH [OF kcs inv2a inv2b, of ?t ?m] False r(1) ill kt show ?thesis
      by (simp add: Let_def)
  qed
qed

lemma remdups_snoc: "remdups (zs @ [x]) = filter (\<lambda>z. z \<noteq> x) (remdups zs) @ [x]"
  by (induction zs) auto

lemma discovery_order:
  "foldl (\<lambda>ks c. if c \<in> set ks then ks else ks @ [c]) ks xs
   = ks @ rev (remdups (rev (filter (\<lambda>x. x \<notin> set ks) xs)))"
proof (induction xs arbitrary: ks)
  case Nil
  then show ?case by simp
next
  case (Cons x xs)
  show ?case
  proof (cases "x \<in> set ks")
    case True
    with Cons.IH [of ks] show ?thesis by simp
  next
    case False
    have "filter (\<lambda>y. y \<notin> set (ks @ [x])) xs = filter (\<lambda>z. z \<noteq> x) (filter (\<lambda>y. y \<notin> set ks) xs)"
      by (auto intro: filter_cong)
    with Cons.IH [of "ks @ [x]"] False show ?thesis
      by (simp add: remdups_snoc rev_filter remdups_filter conj_commute)
  qed
qed


text \<open>The candidates all bind exactly the blocking parameters.\<close>

lemma square_blocksizes_keys:
  "distinct (map fst mapper) \<Longrightarrow> c \<in> set (square_blocksizes mapper opts) \<Longrightarrow>
   map fst c = map fst mapper"
  by (auto simp: square_blocksizes_def OrderedDict_distinct_id comp_def)

lemma elaborated_tails_keys:
  assumes "elaborated_tails blocksizes = Inr tails" "c \<in> set tails"
    and "\<forall>b \<in> set blocksizes. map fst b = ks" "distinct ks"
  shows "map fst c = ks"
proof -
  from assms(1) have ne: "[] \<notin> set blocksizes"
    and t: "tails = concat (map (\<lambda>blocksize.
                  map (\<lambda>i. OrderedDict (butlast blocksize @ [last i])) blocksizes)
                (take 3 blocksizes))"
    by (auto simp: elaborated_tails_def split: if_splits)
  from assms(2) t obtain b i where b: "b \<in> set (take 3 blocksizes)" and i: "i \<in> set blocksizes"
    and c: "c = OrderedDict (butlast b @ [last i])" by auto
  from b have b': "b \<in> set blocksizes" by (rule in_set_takeD)
  from i ne have "i \<noteq> []" by auto
  with assms(3) i have ks: "ks \<noteq> []" by auto
  from assms(3) b' i have kb: "map fst b = ks" and ki: "map fst i = ks" by auto
  have "map fst (butlast b @ [last i]) = butlast (map fst b) @ [last (map fst i)]"
    using \<open>i \<noteq> []\<close> by (simp add: map_butlast last_map)
  also have "\<dots> = ks" using kb ki ks by simp
  finally have k: "map fst (butlast b @ [last i]) = ks" .
  with assms(4) have "OrderedDict (butlast b @ [last i]) = butlast b @ [last i]"
    by (intro OrderedDict_distinct_id) simp
  with c k show ?thesis by simp
qed

lemma doubled_keys: "distinct (map fst b) \<Longrightarrow> map fst (doubled b j) = map fst b"
proof -
  assume d: "distinct (map fst b)"
  have k: "map fst (map (\<lambda>(k, v). (k, if k \<in> set j then v * 2 else v)) b) = map fst b"
    by (induction b) auto
  from d have "distinct (map fst (map (\<lambda>(k, v). (k, if k \<in> set j then v * 2 else v)) b))"
    unfolding k .
  then have "OrderedDict (map (\<lambda>(k, v). (k, if k \<in> set j then v * 2 else v)) b)
        = map (\<lambda>(k, v). (k, if k \<in> set j then v * 2 else v)) b"
    by (rule OrderedDict_distinct_id)
  with k show ?thesis by (simp add: doubled_def)
qed

lemma elaborated_doubles_keys:
  assumes "c \<in> set (elaborated_doubles blocksizes)"
    and "\<forall>b \<in> set blocksizes. map fst b = ks" "distinct ks"
  shows "map fst c = ks"
proof -
  from assms(1) obtain b j where "b \<in> set blocksizes" "c = doubled b j"
    by (auto simp: elaborated_doubles_def)
  with assms(2,3) doubled_keys [of b j] show ?thesis by auto
qed

lemma attempted_blocksizes_keys:
  assumes "attempted_blocksizes opts opr = Inr blocksizes" "c \<in> set blocksizes"
  shows "map fst c = map fst (blocking_mapper opr)"
proof -
  let ?sq = "square_blocksizes (blocking_mapper opr) opts"
  have sq: "\<forall>b \<in> set ?sq. map fst b = map fst (blocking_mapper opr)"
    using square_blocksizes_keys [OF blocking_mapper_distinct] by blast
  show ?thesis
  proof (cases "needs_aggressive_autotuning opr")
    case False
    with assms sq show ?thesis by (auto simp: attempted_blocksizes_def Let_def)
  next
    case True
    with assms(1) obtain tails where t: "elaborated_tails ?sq = Inr tails"
      and b: "blocksizes = ?sq @ tails @ elaborated_doubles ?sq"
      by (auto simp: attempted_blocksizes_def Let_def split: sum.splits)
    from assms(2) b consider "c \<in> set ?sq" | "c \<in> set tails" | "c \<in> set (elaborated_doubles ?sq)"
      by auto
    then show ?thesis
    proof cases
      case 1
      with sq show ?thesis by blast
    next
      case 2
      from elaborated_tails_keys [OF t 2 sq blocking_mapper_distinct] show ?thesis .
    next
      case 3
      from elaborated_doubles_keys [OF 3 sq blocking_mapper_distinct] show ?thesis .
    qed
  qed
qed

text \<open>The scan for the minimum.\<close>

lemma min_scan_first:
  assumes "j0 < length pre" "pre ! j0 = (b0, t0)"
    and "\<forall>i<j0. t0 < snd (pre ! i)" "\<forall>i<length pre. t0 \<le> snd (pre ! i)"
  shows "\<exists>j t. j < length (pre @ rest) \<and> (pre @ rest) ! j = (min_scan rest (b0, t0), t) \<and>
           (\<forall>i<j. t < snd ((pre @ rest) ! i)) \<and> (\<forall>i<length (pre @ rest). t \<le> snd ((pre @ rest) ! i))"
  using assms
proof (induction rest arbitrary: pre j0 b0 t0)
  case Nil
  then show ?case by auto
next
  case (Cons p rest)
  obtain k t where p: "p = (k, t)" by (cases p)
  show ?case
  proof (cases "t < t0")
    case True
    have a: "length pre < length (pre @ [p])" "(pre @ [p]) ! length pre = (k, t)"
      using p by simp_all
    have b: "\<forall>i<length pre. t < snd ((pre @ [p]) ! i)"
      using Cons.prems(4) True by (auto simp: nth_append)
    have c: "\<forall>i<length (pre @ [p]). t \<le> snd ((pre @ [p]) ! i)"
      using Cons.prems(4) True p by (auto simp: nth_append less_Suc_eq)
    from Cons.IH [OF a b c] True p show ?thesis by simp
  next
    case False
    have a: "j0 < length (pre @ [p])" "(pre @ [p]) ! j0 = (b0, t0)"
      using Cons.prems(1,2) by (simp_all add: nth_append)
    have b: "\<forall>i<j0. t0 < snd ((pre @ [p]) ! i)"
      using Cons.prems(1,3) by (auto simp: nth_append)
    have c: "\<forall>i<length (pre @ [p]). t0 \<le> snd ((pre @ [p]) ! i)"
      using Cons.prems(4) False p by (auto simp: nth_append less_Suc_eq)
    from Cons.IH [OF a b c] False p show ?thesis by simp
  qed
qed

lemma min_key_first:
  assumes "timings \<noteq> []"
  shows "\<exists>best j t. min_key timings = Inr best \<and> j < length timings \<and> timings ! j = (best, t) \<and>
           (\<forall>i<j. t < snd (timings ! i)) \<and> (\<forall>i<length timings. t \<le> snd (timings ! i))"
proof -
  from assms obtain k t rest where l: "timings = (k, t) # rest"
    by (cases timings) auto
  from min_scan_first [of 0 "[(k, t)]" k t rest] l show ?thesis by auto
qed

text \<open>Writing the best candidate back.\<close>

lemma write_back_result:
  assumes "fst ` set mapper \<subseteq> fst ` set best" "fst ` set items \<subseteq> fst ` set A"
  shows "\<exists>A'. write_back mapper best items A = Inr A' \<and> map fst A' = map fst A \<and>
           (\<forall>k. map_of A' k =
              (if k \<in> fst ` set mapper \<and> k \<in> fst ` set items
               then map_option IntArg (map_of best k) else map_of A k))"
  using assms(2)
proof (induction items arbitrary: A)
  case Nil
  then show ?case by simp
next
  case (Cons p items)
  obtain k v where p: "p = (k, v)" by (cases p)
  from Cons.prems p have kA: "k \<in> fst ` set A" and sub: "fst ` set items \<subseteq> fst ` set A" by auto
  show ?case
  proof (cases "k \<in> fst ` set mapper")
    case False
    from Cons.IH [OF sub] obtain A' where
      r: "write_back mapper best items A = Inr A'" "map fst A' = map fst A"
      "\<forall>k. map_of A' k =
              (if k \<in> fst ` set mapper \<and> k \<in> fst ` set items
               then map_option IntArg (map_of best k) else map_of A k)" by blast
    from r(1) False p have "write_back mapper best (p # items) A = Inr A'" by simp
    moreover from r(3) False p have "\<forall>k'. map_of A' k' =
              (if k' \<in> fst ` set mapper \<and> k' \<in> fst ` set (p # items)
               then map_option IntArg (map_of best k') else map_of A k')" by auto
    ultimately show ?thesis using r(2) by blast
  next
    case True
    with assms(1) obtain val where val: "map_of best k = Some val"
      by (metis domD dom_map_of_conv_image_fst subsetD)
    let ?A1 = "AList.update k (IntArg val) A"
    have keys: "map fst ?A1 = map fst A" using kA by (simp add: map_fst_update)
    then have "fst ` set ?A1 = fst ` set A" by (metis list.set_map)
    with sub have "fst ` set items \<subseteq> fst ` set ?A1" by simp
    from Cons.IH [OF this] obtain A' where
      r: "write_back mapper best items ?A1 = Inr A'" "map fst A' = map fst ?A1"
      "\<forall>k'. map_of A' k' =
              (if k' \<in> fst ` set mapper \<and> k' \<in> fst ` set items
               then map_option IntArg (map_of best k') else map_of ?A1 k')" by blast
    from r(1) True val p have "write_back mapper best (p # items) A = Inr A'" by simp
    moreover from r(3) True val p have "\<forall>k'. map_of A' k' =
              (if k' \<in> fst ` set mapper \<and> k' \<in> fst ` set (p # items)
               then map_option IntArg (map_of best k') else map_of A k')"
      by (auto simp: update_conv')
    ultimately show ?thesis using r(2) keys by auto
  qed
qed


text \<open>Cloning the outputs.\<close>

lemma clone_outputs_result:
  assumes "\<forall>(k, v) \<in> set items. k \<in> set out \<longrightarrow> (\<exists>a. v = Array a)"
    and "fst ` set items \<subseteq> fst ` set A"
  shows "\<exists>A' m'. clone_outputs out items A m = (Inr A', m') \<and> map fst A' = map fst A \<and>
           (\<forall>k. k \<notin> set out \<or> k \<notin> fst ` set items \<longrightarrow> map_of A' k = map_of A k) \<and>
           (\<forall>k \<in> fst ` set items \<inter> set out. \<exists>arr. map_of A' k = Some (Array arr) \<and> brk m \<le> buffer arr) \<and>
           brk m \<le> brk m' \<and> (\<forall>a < brk m. memory m' a = memory m a) \<and>
           profiler_timings m' = profiler_timings m"
  using assms
proof (induction items arbitrary: A m)
  case Nil
  then show ?case by simp
next
  case (Cons p items)
  obtain k v where p: "p = (k, v)" by (cases p)
  from Cons.prems p have kA: "k \<in> fst ` set A" and sub: "fst ` set items \<subseteq> fst ` set A"
    and arr: "\<forall>(k, v) \<in> set items. k \<in> set out \<longrightarrow> (\<exists>a. v = Array a)" by auto
  show ?case
  proof (cases "k \<in> set out")
    case False
    from Cons.IH [OF arr sub, of m] obtain A' m' where
      r: "clone_outputs out items A m = (Inr A', m')" "map fst A' = map fst A"
      "\<forall>k. k \<notin> set out \<or> k \<notin> fst ` set items \<longrightarrow> map_of A' k = map_of A k"
      "\<forall>k \<in> fst ` set items \<inter> set out. \<exists>arr. map_of A' k = Some (Array arr) \<and> brk m \<le> buffer arr"
      "brk m \<le> brk m'" "\<forall>a < brk m. memory m' a = memory m a"
      "profiler_timings m' = profiler_timings m" by blast
    from r(1) False p have 1: "clone_outputs out (p # items) A m = (Inr A', m')" by simp
    from r(3) False p have 2: "\<forall>k'. k' \<notin> set out \<or> k' \<notin> fst ` set (p # items) \<longrightarrow>
        map_of A' k' = map_of A k'" by auto
    from r(4) False p have 3: "\<forall>k' \<in> fst ` set (p # items) \<inter> set out.
        \<exists>arr. map_of A' k' = Some (Array arr) \<and> brk m \<le> buffer arr" by auto
    from 1 2 3 r(2,5,6,7) show ?thesis by blast
  next
    case True
    with Cons.prems(1) p obtain a where a: "v = Array a" by auto
    let ?a = "a\<lparr>buffer := brk m\<rparr>"
    let ?m = "m\<lparr>memory := (memory m)(brk m := memory m (buffer a)), brk := Suc (brk m)\<rparr>"
    let ?A1 = "AList.update k (Array ?a) A"
    have keys: "map fst ?A1 = map fst A" using kA by (simp add: map_fst_update)
    then have "fst ` set ?A1 = fst ` set A" by (metis list.set_map)
    with sub have sub1: "fst ` set items \<subseteq> fst ` set ?A1" by simp
    from Cons.IH [OF arr sub1, of ?m] obtain A' m' where
      r: "clone_outputs out items ?A1 ?m = (Inr A', m')" "map fst A' = map fst ?A1"
      "\<forall>k. k \<notin> set out \<or> k \<notin> fst ` set items \<longrightarrow> map_of A' k = map_of ?A1 k"
      "\<forall>k \<in> fst ` set items \<inter> set out. \<exists>arr. map_of A' k = Some (Array arr) \<and> brk ?m \<le> buffer arr"
      "brk ?m \<le> brk m'" "\<forall>a < brk ?m. memory m' a = memory ?m a"
      "profiler_timings m' = profiler_timings ?m" by blast
    from r(1) True a p have 1: "clone_outputs out (p # items) A m = (Inr A', m')"
      by (simp add: array_copy_def)
    have 2: "\<forall>k'. k' \<notin> set out \<or> k' \<notin> fst ` set (p # items) \<longrightarrow> map_of A' k' = map_of A k'"
    proof (intro allI impI)
      fix k' assume h: "k' \<notin> set out \<or> k' \<notin> fst ` set (p # items)"
      with True p have "k' \<noteq> k" by auto
      moreover from h p have "k' \<notin> set out \<or> k' \<notin> fst ` set items" by auto
      ultimately show "map_of A' k' = map_of A k'" using r(3) by (simp add: update_conv')
    qed
    have 3: "\<forall>k' \<in> fst ` set (p # items) \<inter> set out.
        \<exists>arr. map_of A' k' = Some (Array arr) \<and> brk m \<le> buffer arr"
    proof
      fix k' assume h: "k' \<in> fst ` set (p # items) \<inter> set out"
      show "\<exists>arr. map_of A' k' = Some (Array arr) \<and> brk m \<le> buffer arr"
      proof (cases "k' \<in> fst ` set items")
        case True
        with h r(4) obtain arr where "map_of A' k' = Some (Array arr)" "brk ?m \<le> buffer arr"
          by blast
        then show ?thesis by (intro exI [of _ arr]) simp
      next
        case False
        with h p have "k' = k" by auto
        with False r(3) have "map_of A' k' = Some (Array ?a)" by (simp add: update_conv')
        then show ?thesis by (intro exI [of _ ?a]) simp
      qed
    qed
    from r(5) have 4: "brk m \<le> brk m'" by simp
    from r(6) have 5: "\<forall>a < brk m. memory m' a = memory m a" by simp
    from r(7) have 6: "profiler_timings m' = profiler_timings m" by simp
    from 1 2 3 4 5 6 r(2) keys show ?thesis by auto
  qed
qed

lemma blocking_mapper_values: "snd ` set (blocking_mapper opr) \<subseteq> set (dle_arguments opr)"
proof -
  have "snd ` set (foldl (\<lambda>d (k, v). AList.update k v d) acc xs) \<subseteq> snd ` set acc \<union> snd ` set xs"
    for acc xs :: "(string \<times> blocking_arg) list"
  proof (induction xs arbitrary: acc)
    case Nil
    then show ?case by simp
  next
    case (Cons x xs)
    obtain k v where x: "x = (k, v)" by (cases x)
    have "snd ` set (AList.update k v acc) \<subseteq> insert v (snd ` set acc)"
      by (induction acc) auto
    with Cons.IH [of "AList.update k v acc"] x show ?case by auto
  qed
  from this [of "[]" "map (\<lambda>i. (dim_name (argument i), i)) (dle_arguments opr)"]
  show ?thesis by (auto simp: blocking_mapper_def OrderedDict_def)
qed


text \<open>The whole search, for an operator that blocks.\<close>

lemma autotune_result:
  assumes blocking: "has_applied_blocking opr"
    and params: "fst ` set (blocking_mapper opr) \<subseteq> fst ` set arguments"
    and gov: "\<forall>b \<in> set (dle_arguments opr). dim_name (original_dim b) \<notin> searched_names opr"
    and outs: "\<forall>(k, v) \<in> set arguments. k \<in> set (output_fields opr) \<longrightarrow> (\<exists>a. v = Array a)"
    and cands: "attempted_blocksizes opts opr = Inr blocksizes"
  shows "\<exists>at_arguments m1 timings m'.
           clone_outputs (output_fields opr) arguments arguments m = (Inr at_arguments, m1) \<and>
           trial_loop opts opr blocksizes at_arguments [] m1 = (Inr timings, m') \<and>
           map fst timings =
             rev (remdups (rev (filter (\<lambda>c. \<not> exceeds_extent (blocking_mapper opr) arguments c)
                                  blocksizes))) \<and>
           (timings = [] \<longrightarrow> autotune opts opr arguments m = (Inl ValueError, m')) \<and>
           (timings \<noteq> [] \<longrightarrow>
              (\<exists>best j t arguments'.
                 j < length timings \<and> timings ! j = (best, t) \<and>
                 (\<forall>i<j. t < snd (timings ! i)) \<and> (\<forall>i<length timings. t \<le> snd (timings ! i)) \<and>
                 autotune opts opr arguments m = (Inr arguments', m') \<and>
                 map fst arguments' = map fst arguments \<and>
                 (\<forall>k. map_of arguments' k =
                    (if k \<in> fst ` set (blocking_mapper opr)
                     then map_option IntArg (map_of best k) else map_of arguments k))))"
proof -
  let ?mapper = "blocking_mapper opr"
  let ?legal = "\<lambda>c. \<not> exceeds_extent ?mapper arguments c"
  from clone_outputs_result [OF outs subset_refl, of m] obtain A0 m1 where
    cl: "clone_outputs (output_fields opr) arguments arguments m = (Inr A0, m1)"
    and k0: "map fst A0 = map fst arguments"
    and f0: "\<forall>k. k \<notin> set (output_fields opr) \<or> k \<notin> fst ` set arguments \<longrightarrow>
               map_of A0 k = map_of arguments k"
    by blast
  have gov': "\<forall>b \<in> snd ` set ?mapper. dim_name (original_dim b) \<notin> searched_names opr"
    using gov blocking_mapper_values [of opr] by blast
  then have g1: "\<forall>b \<in> snd ` set ?mapper.
      dim_name (original_dim b) \<notin> fst ` set ?mapper \<union> set (squeezable opr) \<union> {s_name opr}"
    by (auto simp: searched_names_def)
  have ck: "\<forall>c \<in> set blocksizes. fst ` set c \<subseteq> fst ` set ?mapper"
  proof
    fix c assume "c \<in> set blocksizes"
    from attempted_blocksizes_keys [OF cands this] have "set (map fst c) = set (map fst ?mapper)"
      by simp
    then show "fst ` set c \<subseteq> fst ` set ?mapper" by simp
  qed
  from k0 have "fst ` set A0 = fst ` set arguments" by (metis list.set_map)
  with params have i1: "fst ` set ?mapper \<subseteq> fst ` set A0" by simp
  have i2: "\<forall>b \<in> snd ` set ?mapper.
         map_of A0 (dim_name (original_dim b)) = map_of arguments (dim_name (original_dim b))"
    using gov' f0 by (auto simp: searched_names_def)
  from trial_loop_timings [OF g1 ck i1 i2, of opts "[]" m1] obtain timings m' where
    tl: "trial_loop opts opr blocksizes A0 [] m1 = (Inr timings, m')"
    and tk: "map fst timings = rev (remdups (rev (filter ?legal blocksizes)))"
    by (auto simp: discovery_order)
  have empty: "autotune opts opr arguments m = (Inl ValueError, m')" if "timings = []"
    using that blocking cl cands tl by (simp add: autotune_def)
  have nonempty: "\<exists>best j t arguments'.
                 j < length timings \<and> timings ! j = (best, t) \<and>
                 (\<forall>i<j. t < snd (timings ! i)) \<and> (\<forall>i<length timings. t \<le> snd (timings ! i)) \<and>
                 autotune opts opr arguments m = (Inr arguments', m') \<and>
                 map fst arguments' = map fst arguments \<and>
                 (\<forall>k. map_of arguments' k =
                    (if k \<in> fst ` set ?mapper
                     then map_option IntArg (map_of best k) else map_of arguments k))"
    if "timings \<noteq> []"
  proof -
    from min_key_first [OF that] obtain best j t where
      mk: "min_key timings = Inr best" and j: "j < length timings" "timings ! j = (best, t)"
      "\<forall>i<j. t < snd (timings ! i)" "\<forall>i<length timings. t \<le> snd (timings ! i)" by blast
    from j(1,2) have "best \<in> set (map fst timings)"
      by (metis fst_conv length_map nth_map nth_mem)
    with tk have "best \<in> set blocksizes" by auto
    from attempted_blocksizes_keys [OF cands this]
    have "set (map fst best) = set (map fst ?mapper)" by simp
    then have bk: "fst ` set ?mapper \<subseteq> fst ` set best" by simp
    from write_back_result [OF bk subset_refl, of arguments] obtain arguments' where
      wb: "write_back ?mapper best arguments arguments = Inr arguments'"
      "map fst arguments' = map fst arguments"
      "\<forall>k. map_of arguments' k =
              (if k \<in> fst ` set ?mapper \<and> k \<in> fst ` set arguments
               then map_option IntArg (map_of best k) else map_of arguments k)" by blast
    from wb(3) params have look: "\<forall>k. map_of arguments' k =
              (if k \<in> fst ` set ?mapper
               then map_option IntArg (map_of best k) else map_of arguments k)" by auto
    have "autotune opts opr arguments m = (Inr arguments', m')"
      using blocking cl cands tl mk wb(1) by (simp add: autotune_def)
    with j wb(2) look show ?thesis by blast
  qed
  from cl tl tk empty nonempty show ?thesis by blast
qed

lemma trial_loop_all_illegal:
  assumes gov: "\<forall>b \<in> snd ` set (blocking_mapper opr).
                  dim_name (original_dim b) \<notin> fst ` set (blocking_mapper opr) \<union> set (squeezable opr) \<union> {s_name opr}"
    and keys: "\<forall>c \<in> set cs. fst ` set c \<subseteq> fst ` set (blocking_mapper opr)"
    and inv: "fst ` set (blocking_mapper opr) \<subseteq> fst ` set A"
      "\<forall>b \<in> snd ` set (blocking_mapper opr).
         map_of A (dim_name (original_dim b)) = map_of arguments (dim_name (original_dim b))"
    and all: "\<forall>c \<in> set cs. exceeds_extent (blocking_mapper opr) arguments c"
  shows "trial_loop opts opr cs A timings m = (Inr timings, m)"
  using keys inv all
proof (induction cs arbitrary: A)
  case Nil
  then show ?case by simp
next
  case (Cons c cs)
  let ?mapper = "blocking_mapper opr"
  from Cons.prems(1) have kc: "fst ` set c \<subseteq> fst ` set ?mapper"
    and kcs: "\<forall>c \<in> set cs. fst ` set c \<subseteq> fst ` set ?mapper" by auto
  from gov have gov': "\<forall>b \<in> snd ` set ?mapper.
       dim_name (original_dim b) \<notin> fst ` set ?mapper \<union> set (squeezable opr)" by auto
  from bind_blocksize_result [OF kc gov', of A A "at_squeezer opts"] obtain illegal A1 where
    r: "bind_blocksize ?mapper (squeezable opr) (at_squeezer opts) c A A = Inr (illegal, A1)"
    "map fst A1 = map fst A"
    "\<forall>k. k \<notin> fst ` set ?mapper \<union> set (squeezable opr) \<longrightarrow> map_of A1 k = map_of A k"
    "illegal \<longleftrightarrow>
       (\<exists>k \<in> fst ` set A. \<exists>val b. map_of c k = Some val \<and> map_of ?mapper k = Some b \<and>
          iter_end (iteration b) (map_of A (dim_name (original_dim b))) < val)"
    by auto
  from r(4) illegal_iff_exceeds [OF blocking_mapper_distinct Cons.prems(2,3)] Cons.prems(4)
  have ill: illegal by simp
  from r(2) have keys1: "fst ` set A1 = fst ` set A" by (metis list.set_map)
  with Cons.prems(2) have inv1a: "fst ` set ?mapper \<subseteq> fst ` set A1" by simp
  have inv1b: "\<forall>b \<in> snd ` set ?mapper.
         map_of A1 (dim_name (original_dim b)) = map_of arguments (dim_name (original_dim b))"
    using r(3) gov' Cons.prems(3) by auto
  from Cons.prems(4) have "\<forall>c \<in> set cs. exceeds_extent ?mapper arguments c" by simp
  from Cons.IH [OF kcs inv1a inv1b this] ill r(1) show ?case by simp
qed

lemma set_update_subset: "set (AList.update k v A) \<subseteq> insert (k, v) (set A)"
  by (induction A) auto

lemma bind_blocksize_pairs:
  "bind_blocksize mapper sq z c items A = Inr (illegal, A1) \<Longrightarrow> fst ` set items \<subseteq> fst ` set A \<Longrightarrow>
   map fst A1 = map fst A \<and> (\<forall>p \<in> set A1. p \<in> set A \<or> (\<exists>n. snd p = IntArg n))"
proof (induction items arbitrary: A)
  case Nil
  then show ?case by simp
next
  case (Cons p items)
  obtain k v where p: "p = (k, v)" by (cases p)
  from Cons.prems(2) p have kA: "k \<in> fst ` set A" and sub: "fst ` set items \<subseteq> fst ` set A"
    by auto
  have upd: "map fst A1 = map fst A \<and> (\<forall>p \<in> set A1. p \<in> set A \<or> (\<exists>n. snd p = IntArg n))"
    if rec: "bind_blocksize mapper sq z c items (AList.update k (IntArg w) A) = Inr (illegal, A1)" for w
  proof -
    have keys: "map fst (AList.update k (IntArg w) A) = map fst A"
      using kA by (simp add: map_fst_update)
    then have "fst ` set (AList.update k (IntArg w) A) = fst ` set A" by (metis list.set_map)
    with sub have "fst ` set items \<subseteq> fst ` set (AList.update k (IntArg w) A)" by simp
    from Cons.IH [OF rec this] keys set_update_subset [of k "IntArg w" A]
    show ?thesis by force
  qed
  show ?case
  proof (cases "map_of c k")
    case None
    show ?thesis
    proof (cases "k \<in> set sq")
      case True
      with Cons.prems(1) None p upd [of z] show ?thesis by simp
    next
      case False
      with Cons.prems(1) None p Cons.IH [OF _ sub] show ?thesis by simp
    qed
  next
    case (Some val)
    with Cons.prems(1) p obtain b where b: "map_of mapper k = Some b"
      by (cases "map_of mapper k") auto
    show ?thesis
    proof (cases "val \<le> iter_end (iteration b) (map_of A (dim_name (original_dim b)))")
      case True
      with Cons.prems(1) Some b p upd [of val] show ?thesis by simp
    next
      case False
      with Cons.prems(1) Some b p show ?thesis by simp
    qed
  qed
qed

lemma trial_loop_memory:
  assumes frame: "\<forall>A mm a. map fst A = map fst (dict_update arguments (extra_arguments opr)) \<longrightarrow>
                    (\<forall>k arr. (k, Array arr) \<in> set A \<longrightarrow> k \<in> set (output_fields opr) \<longrightarrow> buffer arr \<noteq> a) \<longrightarrow>
                    memory (cfunction opr (map snd A) mm) a = memory mm a"
  shows "trial_loop opts opr cs A timings m = (r, m') \<Longrightarrow>
         map fst A = map fst arguments \<or> map fst A = map fst (dict_update arguments (extra_arguments opr)) \<Longrightarrow>
         \<forall>k arr. (k, Array arr) \<in> set A \<longrightarrow> k \<in> set (output_fields opr) \<longrightarrow> n \<le> buffer arr \<Longrightarrow>
         \<forall>a<n. memory m a = mem0 a \<Longrightarrow>
         \<forall>a<n. memory m' a = mem0 a"
proof (induction cs arbitrary: A timings m)
  case Nil
  then show ?case by simp
next
  case (Cons c cs)
  show ?case
  proof (cases "bind_blocksize (blocking_mapper opr) (squeezable opr) (at_squeezer opts) c A A")
    case (Inl e)
    with Cons.prems(1,4) show ?thesis by simp
  next
    case (Inr res)
    obtain illegal A1 where res: "res = (illegal, A1)" by (cases res)
    from bind_blocksize_pairs [OF Inr [unfolded res] subset_refl]
    have k1: "map fst A1 = map fst A"
      and p1: "\<forall>p \<in> set A1. p \<in> set A \<or> (\<exists>n. snd p = IntArg n)" by auto
    have out1: "\<forall>k arr. (k, Array arr) \<in> set A1 \<longrightarrow> k \<in> set (output_fields opr) \<longrightarrow> n \<le> buffer arr"
      using p1 Cons.prems(3) by fastforce
    from Cons.prems(2) k1 have keys1: "map fst A1 = map fst arguments \<or>
       map fst A1 = map fst (dict_update arguments (extra_arguments opr))" by simp
    show ?thesis
    proof (cases illegal)
      case True
      with Cons.prems(1) Inr res have "trial_loop opts opr cs A1 timings m = (r, m')" by simp
      from Cons.IH [OF this keys1 out1 Cons.prems(4)] show ?thesis .
    next
      case False
      let ?A2 = "dict_update A1 (extra_arguments opr)"
      let ?m = "cfunction opr (map snd ?A2) m"
      let ?t = "AList.update c (sum_list (map snd (profiler_timings ?m))) timings"
      from Cons.prems(1) Inr res False have rec: "trial_loop opts opr cs ?A2 ?t ?m = (r, m')"
        by (simp add: Let_def)
      have fst_eq: "fst ` set X = fst ` set Y" if "map fst X = map fst Y"
        for X Y :: "(string \<times> argument) list"
        using that by (metis list.set_map)
      have keys2: "map fst ?A2 = map fst (dict_update arguments (extra_arguments opr))"
        using keys1
      proof
        assume e: "map fst A1 = map fst arguments"
        from fst_eq [OF e] e show ?thesis
          unfolding dict_update_extra by (simp add: map_fst_update)
      next
        assume e: "map fst A1 = map fst (dict_update arguments (extra_arguments opr))"
        have "s_name opr \<in> fst ` set (AList.update (s_name opr) TimerStruct arguments)"
          by (simp add: dom_update)
        with fst_eq [OF e] have "s_name opr \<in> fst ` set A1"
          unfolding dict_update_extra by simp
        with e show ?thesis
          unfolding dict_update_extra by (simp add: map_fst_update)
      qed
      have "set ?A2 \<subseteq> insert (s_name opr, TimerStruct) (set A1)"
        unfolding dict_update_extra by (rule set_update_subset)
      with out1 have out2: "\<forall>k arr. (k, Array arr) \<in> set ?A2 \<longrightarrow> k \<in> set (output_fields opr) \<longrightarrow>
          n \<le> buffer arr" by auto
      have mem2: "\<forall>a<n. memory ?m a = mem0 a"
      proof (intro allI impI)
        fix a assume a: "a < n"
        with out2 have "\<forall>k arr. (k, Array arr) \<in> set ?A2 \<longrightarrow> k \<in> set (output_fields opr) \<longrightarrow>
          buffer arr \<noteq> a" by fastforce
        with frame keys2 have "memory ?m a = memory m a" by blast
        with Cons.prems(4) a show "memory ?m a = mem0 a" by simp
      qed
      from Cons.IH [OF rec _ out2 mem2] keys2 show ?thesis by simp
    qed
  qed
qed

lemma clone_outputs_copy:
  assumes "\<forall>(k, v) \<in> set items. k \<in> set out \<longrightarrow> (\<exists>a. v = Array a)"
    and "fst ` set items \<subseteq> fst ` set A" and "distinct (map fst items)"
    and "clone_outputs out items A m = (Inr A', m')"
    and "(k, Array a) \<in> set items" and "k \<in> set out" and "buffer a < brk m"
  shows "\<exists>a'. map_of A' k = Some (Array a') \<and> nd_shape a' = nd_shape a \<and> brk m \<le> buffer a' \<and>
              memory m' (buffer a') = memory m (buffer a)"
  using assms(1-5,7)
proof (induction items arbitrary: A m)
  case Nil
  then show ?case by simp
next
  case (Cons p items)
  obtain k' v' where p: "p = (k', v')" by (cases p)
  from Cons.prems p have kA: "k' \<in> fst ` set A" and sub: "fst ` set items \<subseteq> fst ` set A"
    and arr: "\<forall>(k, v) \<in> set items. k \<in> set out \<longrightarrow> (\<exists>a. v = Array a)"
    and dist: "distinct (map fst items)" and fresh: "k' \<notin> fst ` set items" by auto
  show ?case
  proof (cases "k' \<in> set out")
    case False
    with Cons.prems(4) p have rec: "clone_outputs out items A m = (Inr A', m')" by simp
    from False Cons.prems(5) p assms(6) have "(k, Array a) \<in> set items" by auto
    from Cons.IH [OF arr sub dist rec this Cons.prems(6)] show ?thesis .
  next
    case True
    with Cons.prems(1) p obtain b where b: "v' = Array b" by auto
    let ?b = "b\<lparr>buffer := brk m\<rparr>"
    let ?m = "m\<lparr>memory := (memory m)(brk m := memory m (buffer b)), brk := Suc (brk m)\<rparr>"
    let ?A1 = "AList.update k' (Array ?b) A"
    from Cons.prems(4) True b p have rec: "clone_outputs out items ?A1 ?m = (Inr A', m')"
      by (simp add: array_copy_def)
    have keys: "map fst ?A1 = map fst A" using kA by (simp add: map_fst_update)
    then have "fst ` set ?A1 = fst ` set A" by (metis list.set_map)
    with sub have sub1: "fst ` set items \<subseteq> fst ` set ?A1" by simp
    from clone_outputs_result [OF arr sub1, of ?m] rec
    have fr: "\<forall>k. k \<notin> set out \<or> k \<notin> fst ` set items \<longrightarrow> map_of A' k = map_of ?A1 k"
      and mem: "\<forall>a < brk ?m. memory m' a = memory ?m a" by auto
    show ?thesis
    proof (cases "(k, Array a) = p")
      case True
      with p b have eq: "k = k'" "a = b" by auto
      from fr fresh eq have "map_of A' k = Some (Array ?b)" by (simp add: update_conv')
      moreover from mem have "memory m' (brk m) = memory m (buffer b)" by simp
      ultimately show ?thesis using eq by (intro exI [of _ ?b]) simp
    next
      case False
      with Cons.prems(5) have mem': "(k, Array a) \<in> set items" by auto
      from Cons.prems(6) have "buffer a < brk ?m" by simp
      from Cons.IH [OF arr sub1 dist rec mem' this] obtain a' where
        "map_of A' k = Some (Array a')" "nd_shape a' = nd_shape a" "brk ?m \<le> buffer a'"
        "memory m' (buffer a') = memory ?m (buffer a)" by blast
      with Cons.prems(6) show ?thesis by (intro exI [of _ a']) auto
    qed
  qed
qed






section \<open>The claims\<close>

text \<open>
  C10. Operator construction requires the left-hand-side data types of the stencils to
  form exactly one distinct type. With two or more distinct types, and with no stencil
  at all, \<open>retrieve_dtype\<close> raises \<open>RuntimeError\<close> and so does the construction,
  whatever the rest of the pipeline would do; a construction that succeeds was given at
  least one stencil, and the type it records is the left-hand-side type of every one.
\<close>

theorem construction_needs_one_dtype:
  "(card (lhs_dtype ` set stencils) \<noteq> 1 \<longrightarrow>
      retrieve_dtype stencils = Inl RuntimeError \<and>
      operator_init pipeline stencils = Inl RuntimeError) \<and>
   retrieve_dtype ([] :: 'e stencil list) = Inl RuntimeError \<and>
   (operator_init pipeline stencils = Inr b \<longrightarrow>
      stencils \<noteq> [] \<and> (\<forall>s \<in> set stencils. lhs_dtype s = built_dtype b) \<and>
      retrieve_dtype stencils = Inr (built_dtype b))"
proof (intro conjI impI)
  assume c: "card (lhs_dtype ` set stencils) \<noteq> 1"
  have "\<not> (\<exists>d. retrieve_dtype stencils = Inr d)"
    using c by (auto simp: retrieve_dtype_Inr_iff)
  then show r: "retrieve_dtype stencils = Inl RuntimeError"
    by (auto simp: retrieve_dtype_def Let_def split: if_splits)
  then show "operator_init pipeline stencils = Inl RuntimeError"
    by (simp add: operator_init_def)
next
  show "retrieve_dtype ([] :: 'e stencil list) = Inl RuntimeError"
    by (simp add: retrieve_dtype_def)
next
  assume ok: "operator_init pipeline stencils = Inr b"
  then have r: "retrieve_dtype stencils = Inr (built_dtype b)"
    by (auto simp: operator_init_def split: sum.splits)
  then have eq: "lhs_dtype ` set stencils = {built_dtype b}"
    by (simp add: retrieve_dtype_Inr_iff)
  from eq show "stencils \<noteq> []" by auto
  from eq show "\<forall>s \<in> set stencils. lhs_dtype s = built_dtype b" by auto
  from r show "retrieve_dtype stencils = Inr (built_dtype b)" .
qed

theorem construction_needs_one_dtype_witness:
  "card (lhs_dtype ` set [\<lparr>lhs_dtype = Float32, equation = (0::nat)\<rparr>,
                          \<lparr>lhs_dtype = Float64, equation = 1\<rparr>]) \<noteq> 1 \<and>
   operator_init (\<lambda>d ss. Inr (length ss))
     [\<lparr>lhs_dtype = Float32, equation = (0::nat)\<rparr>, \<lparr>lhs_dtype = Float64, equation = 1\<rparr>]
     = Inl RuntimeError \<and>
   operator_init (\<lambda>d ss. Inr (length ss))
     [\<lparr>lhs_dtype = Float32, equation = (0::nat)\<rparr>, \<lparr>lhs_dtype = Float32, equation = 1\<rparr>]
     = Inr \<lparr>built_dtype = Float32, built_rest = 2\<rparr> \<and>
   retrieve_dtype [\<lparr>lhs_dtype = Float32, equation = (0::nat)\<rparr>,
                   \<lparr>lhs_dtype = Float32, equation = 1\<rparr>] = Inr Float32"
  using construction_needs_one_dtype
          [of "[\<lparr>lhs_dtype = Float32, equation = (0::nat)\<rparr>, \<lparr>lhs_dtype = Float64, equation = 1\<rparr>]"
              "\<lambda>d ss. Inr (length ss)"]
        construction_needs_one_dtype
          [of "[\<lparr>lhs_dtype = Float32, equation = (0::nat)\<rparr>, \<lparr>lhs_dtype = Float32, equation = 1\<rparr>]"
              "\<lambda>d ss. Inr (length ss)" "\<lparr>built_dtype = Float32, built_rest = 2\<rparr>"]
  by (simp add: operator_init_def retrieve_dtype_def)

text \<open>
  C6. In the replacement map built for the merged tree, every perfect innermost
  iteration of a section is mapped to the same iteration with the body \<open>trimmed_of v\<close>
  of the nodes \<open>v\<close> found in its scope. \<open>trimmed_of\<close> drops an expression node exactly
  when an equal expression node (the same stencil) occurs earlier in the scope and
  keeps every other node, so the first occurrence stays, the result is a subsequence
  of \<open>v\<close> in the same order, and no expression occurs twice in it. Two expressions
  with the same stencil collapse to one.
\<close>

theorem redundant_expressions_removed:
  "trimmed_of ([] :: ('e, 'a) node list) = [] \<and>
   trimmed_of (v @ [n]) = trimmed_of v @ (if is_Expression n \<and> n \<in> set v then [] else [n]) \<and>
   subseq (trimmed_of v) v \<and>
   distinct (filter is_Expression (trimmed_of v)) \<and>
   trimmed_of [Expression e, Expression e :: ('e, 'a) node] = [Expression e] \<and>
   (redundancy_mapper is_perfect [] secs = Inr mapper \<and>
    distinct (map (\<lambda>s. last (fst s)) secs) \<and> (k, v) \<in> set secs \<and> is_perfect (last k) \<longrightarrow>
      (\<exists>ns a. last k = Iteration ns a \<and>
         map_of mapper (last k) = Some (Iteration (trimmed_of v) a)))"
proof (intro conjI impI)
  show "trimmed_of ([] :: ('e, 'a) node list) = []"
    by (rule trimmed_of_Nil)
  show "trimmed_of (v @ [n]) = trimmed_of v @ (if is_Expression n \<and> n \<in> set v then [] else [n])"
    by (rule trimmed_of_snoc)
  show "subseq (trimmed_of v) v"
    by (rule subseq_trimmed_of)
  show "distinct (filter is_Expression (trimmed_of v))"
    by (rule distinct_trimmed_of)
  show "trimmed_of [Expression e, Expression e :: ('e, 'a) node] = [Expression e]"
    by (simp add: trimmed_of_def)
next
  assume a: "redundancy_mapper is_perfect [] secs = Inr mapper \<and>
    distinct (map (\<lambda>s. last (fst s)) secs) \<and> (k, v) \<in> set secs \<and> is_perfect (last k)"
  then show "\<exists>ns a. last k = Iteration ns a \<and>
         map_of mapper (last k) = Some (Iteration (trimmed_of v) a)"
    using redundancy_mapper_entry [of is_perfect "[]" secs mapper k v] by blast
qed

theorem redundant_expressions_removed_witness:
  "redundancy_mapper (\<lambda>c. True) []
     [([Iteration [Expression (1::nat), Expression 2, Expression 1] ''x''],
       [Expression 1, Expression 2, Expression 1])]
   = Inr [(Iteration [Expression 1, Expression 2, Expression 1] ''x'',
           Iteration [Expression 1, Expression 2] ''x'')] \<and>
   map_of [(Iteration [Expression 1, Expression 2, Expression 1] ''x'',
            Iteration [Expression (1::nat), Expression 2] ''x'')]
     (Iteration [Expression 1, Expression 2, Expression 1] ''x'')
   = Some (Iteration (trimmed_of [Expression 1, Expression 2, Expression 1]) ''x'')"
  using redundant_expressions_removed
          [of "[Expression (1::nat), Expression 2, Expression 1]" "Expression 1" 0 "\<lambda>c. True"
              "[([Iteration [Expression (1::nat), Expression 2, Expression 1] ''x''],
                 [Expression 1, Expression 2, Expression 1])]"
              "[(Iteration [Expression 1, Expression 2, Expression 1] ''x'',
                 Iteration [Expression 1, Expression 2] ''x'')]"
              "[Iteration [Expression (1::nat), Expression 2, Expression 1] ''x'']"]
  by (simp add: trimmed_of_def)

text \<open>
  C3, as the code has it: in binary64 arithmetic. When the summary can be computed
  (there is a section, the timer names are distinct and none is \<open>main\<close>, every section
  has a non-empty iteration space, a non-zero measured time, resolvable data extents, a
  non-zero traffic, and an operation count and a traffic small enough to be converted
  to a float), it is computed, and every profiled section has an entry, under its timer
  name or under \<open>main\<close>, with the measured time \<open>t\<close>, the realised iteration extents and
  data extents, and
  \<^item> \<open>flops\<close>, the integer \<open>ops * product of the iteration extents\<close> rounded to the
    nearest float, which is that integer itself when its magnitude is at most \<open>2 ^ 53\<close>;
  \<^item> \<open>traffic\<close>, the integer \<open>memory * product of the data extents * itemsize\<close>,
    rounded in the same way when it divides \<open>flops\<close>;
  \<^item> \<open>oi\<close>, the quotient \<open>flops / traffic\<close> rounded to the nearest float;
  \<^item> \<open>gflopss\<close>, the quotient \<open>gflops / t\<close> rounded to the nearest float, where
    \<open>gflops\<close> is the quotient \<open>flops / 10 ^ 9\<close> rounded to the nearest float.
\<close>

theorem performance_metrics:
  assumes "sections opr \<noteq> []"
    and "distinct (map (\<lambda>s. timer (snd s)) (sections opr))"
    and "\<forall>s \<in> set (sections opr). timer (snd s) \<noteq> ''main''"
    and "\<forall>(itspace, prof) \<in> set (sections opr).
               itspace \<noteq> [] \<and>
               (\<exists>t. map_of (profiler_timings m) (timer prof) = Some t \<and> t \<noteq> 0) \<and>
               \<bar>ops prof *
                prod_list (map (\<lambda>i. extent i (map_of dim_sizes (parent_or_self (it_dim i)))) itspace)\<bar>
                 \<le> 2 ^ 1023 \<and>
               (\<exists>ds. data_extents dim_sizes itspace = Inr ds \<and>
                     memory_accesses prof * prod_list ds \<noteq> 0 \<and>
                     \<bar>memory_accesses prof * prod_list ds * itemsize (dtype opr)\<bar> \<le> 2 ^ 1023)"
  shows "\<exists>summary. profile_summary opr dim_sizes m = Inr summary \<and>
           (\<forall>(itspace, prof) \<in> set (sections opr). \<exists>key entry flops traffic gflops.
              (key = timer prof \<or> key = ''main'') \<and> map_of summary key = Some entry \<and>
              map_of (profiler_timings m) (timer prof) = Some (time entry) \<and>
              itershape entry =
                map (\<lambda>i. extent i (map_of dim_sizes (parent_or_self (it_dim i)))) itspace \<and>
              data_extents dim_sizes itspace = Inr (datashape entry) \<and>
              section_flops prof (prod_list (itershape entry)) = Inr (Finite flops) \<and>
              round_double (of_int (ops prof * prod_list (itershape entry))) = Finite flops \<and>
              (\<bar>ops prof * prod_list (itershape entry)\<bar> \<le> 2 ^ 53 \<longrightarrow>
                 flops = of_int (ops prof) * of_int (prod_list (itershape entry))) \<and>
              section_traffic opr prof (prod_list (datashape entry)) =
                memory_accesses prof * prod_list (datashape entry) * itemsize (dtype opr) \<and>
              round_double (of_int (section_traffic opr prof (prod_list (datashape entry))))
                = Finite traffic \<and>
              (\<bar>section_traffic opr prof (prod_list (datashape entry))\<bar> \<le> 2 ^ 53 \<longrightarrow>
                 traffic = of_int (memory_accesses prof) * of_int (prod_list (datashape entry)) *
                           of_int (itemsize (dtype opr))) \<and>
              oi entry = round_double (flops / traffic) \<and>
              round_double (flops / 10 ^ 9) = Finite gflops \<and>
              gflopss entry = round_double (gflops / time entry))"
proof -
  let ?Q = "\<lambda>itspace prof summary key entry flops traffic gflops.
              (key = timer prof \<or> key = ''main'') \<and> map_of summary key = Some entry \<and>
              map_of (profiler_timings m) (timer prof) = Some (time entry) \<and>
              itershape entry =
                map (\<lambda>i. extent i (map_of dim_sizes (parent_or_self (it_dim i)))) itspace \<and>
              data_extents dim_sizes itspace = Inr (datashape entry) \<and>
              section_flops prof (prod_list (itershape entry)) = Inr (Finite flops) \<and>
              round_double (of_int (ops prof * prod_list (itershape entry))) = Finite flops \<and>
              (\<bar>ops prof * prod_list (itershape entry)\<bar> \<le> 2 ^ 53 \<longrightarrow>
                 flops = of_int (ops prof) * of_int (prod_list (itershape entry))) \<and>
              section_traffic opr prof (prod_list (datashape entry)) =
                memory_accesses prof * prod_list (datashape entry) * itemsize (dtype opr) \<and>
              round_double (of_int (section_traffic opr prof (prod_list (datashape entry))))
                = Finite traffic \<and>
              (\<bar>section_traffic opr prof (prod_list (datashape entry))\<bar> \<le> 2 ^ 53 \<longrightarrow>
                 traffic = of_int (memory_accesses prof) * of_int (prod_list (datashape entry)) *
                           of_int (itemsize (dtype opr))) \<and>
              oi entry = round_double (flops / traffic) \<and>
              round_double (flops / 10 ^ 9) = Finite gflops \<and>
              gflopss entry = round_double (gflops / time entry)"
  from performance_metrics_aux [OF assms] obtain summary where
    ps: "profile_summary opr dim_sizes m = Inr summary"
    and all: "\<forall>(itspace, prof) \<in> set (sections opr). \<exists>key entry.
              (key = timer prof \<or> key = ''main'') \<and> map_of summary key = Some entry \<and>
              section_entry opr dim_sizes m (itspace, prof) = Inr (timer prof, entry)"
    by blast
  have "\<forall>(itspace, prof) \<in> set (sections opr). \<exists>key entry flops traffic gflops.
          ?Q itspace prof summary key entry flops traffic gflops"
  proof (clarify)
    fix itspace prof assume mem: "(itspace, prof) \<in> set (sections opr)"
    let ?its = "map (\<lambda>i. extent i (map_of dim_sizes (parent_or_self (it_dim i)))) itspace"
    from all mem obtain key entry where
      k: "key = timer prof \<or> key = ''main''" "map_of summary key = Some entry"
      and se: "section_entry opr dim_sizes m (itspace, prof) = Inr (timer prof, entry)"
      by fastforce
    from assms(4) mem obtain t ds where c: "itspace \<noteq> []"
      "map_of (profiler_timings m) (timer prof) = Some t" "t \<noteq> 0"
      "\<bar>ops prof * prod_list ?its\<bar> \<le> 2 ^ 1023"
      "data_extents dim_sizes itspace = Inr ds" "memory_accesses prof * prod_list ds \<noteq> 0"
      "\<bar>memory_accesses prof * prod_list ds * itemsize (dtype opr)\<bar> \<le> 2 ^ 1023"
      by fastforce
    from section_entry_Inr [OF c] obtain flops traffic gflops where
      fl: "int_to_float (ops prof * prod_list ?its) = Inr (Finite flops)"
      and tr: "int_to_float (memory_accesses prof * prod_list ds * itemsize (dtype opr))
                 = Inr (Finite traffic)"
      and gf: "round_double (flops / 10 ^ 9) = Finite gflops"
      and se': "section_entry opr dim_sizes m (itspace, prof) =
                  Inr (timer prof,
                    \<lparr>time = t, gflopss = round_double (gflops / t),
                     oi = round_double (flops / traffic), itershape = ?its, datashape = ds\<rparr>)"
      by blast
    from se se' have e: "time entry = t" "gflopss entry = round_double (gflops / t)"
      "oi entry = round_double (flops / traffic)" "itershape entry = ?its" "datashape entry = ds"
      by auto
    from fl have rfl: "round_double (of_int (ops prof * prod_list ?its)) = Finite flops"
      by (auto simp: int_to_float_def split: pyfloat.splits)
    from tr have rtr:
      "round_double (of_int (memory_accesses prof * prod_list ds * itemsize (dtype opr)))
         = Finite traffic"
      by (auto simp: int_to_float_def split: pyfloat.splits)
    have x1: "\<bar>ops prof * prod_list ?its\<bar> \<le> 2 ^ 53 \<longrightarrow>
                 flops = of_int (ops prof) * of_int (prod_list ?its)"
      using round_double_of_int [of "ops prof * prod_list ?its"] rfl by auto
    have x2: "\<bar>memory_accesses prof * prod_list ds * itemsize (dtype opr)\<bar> \<le> 2 ^ 53 \<longrightarrow>
                 traffic = of_int (memory_accesses prof) * of_int (prod_list ds) *
                           of_int (itemsize (dtype opr))"
      using round_double_of_int [of "memory_accesses prof * prod_list ds * itemsize (dtype opr)"]
        rtr by auto
    have "?Q itspace prof summary key entry flops traffic gflops"
      using k c(2,5) e fl rfl rtr x1 x2 gf
      by (simp add: section_flops_def section_traffic_def)
    then show "\<exists>key entry flops traffic gflops.
                 ?Q itspace prof summary key entry flops traffic gflops" by blast
  qed
  with ps show ?thesis by blast
qed


theorem performance_metrics_witness:
  "profile_summary (ex_operator NoValue) [(ex_x, 10), (ex_y, 10)]
     \<lparr>memory = (\<lambda>a. []), brk = 0,
      profiler_timings = [(''loop_x_0'', 1152921504606847 / 1152921504606846976)]\<rparr>
   = Inr [(''main'', \<lparr>time = 1152921504606847 / 1152921504606846976,
                      gflopss = Finite (1844674407370955 / 9223372036854775808),
                      oi = Finite (1 / 4),
                      itershape = [10, 10], datashape = [10, 10]\<rparr>)] \<and>
   section_flops \<lparr>timer = ''loop_x_0'', ops = 2, memory_accesses = 1\<rparr> (prod_list [10, 10])
   = Inr (Finite 200) \<and>
   section_traffic (ex_operator NoValue) \<lparr>timer = ''loop_x_0'', ops = 2, memory_accesses = 1\<rparr>
     (prod_list [10, 10]) = 800 \<and>
   round_double (1 / 1000) = Finite (1152921504606847 / 1152921504606846976) \<and>
   float_div_int (Finite 200) (10 ^ 9) = Inr (Finite (944473296573929 / 4722366482869645213696)) \<and>
   float_div (Finite (944473296573929 / 4722366482869645213696))
     (Finite (1152921504606847 / 1152921504606846976))
   = Inr (Finite (1844674407370955 / 9223372036854775808)) \<and>
   (1844674407370955 / 9223372036854775808 :: real) < 200 / 10 ^ 9 / (1 / 1000)"
proof -
  let ?opr = "ex_operator NoValue"
  let ?ds = "[(ex_x, 10 :: int), (ex_y, 10)]"
  let ?m = "\<lparr>memory = (\<lambda>a. []), brk = 0,
             profiler_timings = [(''loop_x_0'', 1152921504606847 / 1152921504606846976 :: real)]\<rparr>"
  have h1: "sections ?opr \<noteq> []" by (simp add: ex_operator_def)
  have h2: "distinct (map (\<lambda>s. timer (snd s)) (sections ?opr))" by (simp add: ex_operator_def)
  have h3: "\<forall>s \<in> set (sections ?opr). timer (snd s) \<noteq> ''main''" by (simp add: ex_operator_def)
  have h4: "\<forall>(itspace, prof) \<in> set (sections ?opr).
               itspace \<noteq> [] \<and>
               (\<exists>t. map_of (profiler_timings ?m) (timer prof) = Some t \<and> t \<noteq> 0) \<and>
               \<bar>ops prof *
                prod_list (map (\<lambda>i. extent i (map_of ?ds (parent_or_self (it_dim i)))) itspace)\<bar>
                 \<le> 2 ^ 1023 \<and>
               (\<exists>ds. data_extents ?ds itspace = Inr ds \<and>
                     memory_accesses prof * prod_list ds \<noteq> 0 \<and>
                     \<bar>memory_accesses prof * prod_list ds * itemsize (dtype ?opr)\<bar> \<le> 2 ^ 1023)"
    by (simp add: ex_operator_def ex_loop_def ex_x_def ex_y_def data_extent_def)
       (rule exI [of _ "1152921504606847 / 1152921504606846976"], simp)
  have giga: "int_to_float (10 ^ 9) = Inr (Finite (10 ^ 9))"
    using int_to_float_exact [of "10 ^ 9"] by simp
  have ps: "profile_summary ?opr ?ds ?m
     = Inr [(''main'', \<lparr>time = 1152921504606847 / 1152921504606846976,
                      gflopss = Finite (1844674407370955 / 9223372036854775808),
                      oi = Finite (1 / 4),
                      itershape = [10, 10], datashape = [10, 10]\<rparr>)]"
    using giga
    by (simp add: ex_operator_def ex_loop_def ex_x_def ex_y_def profile_summary_def
          section_entry_def section_flops_def section_traffic_def data_extent_def Let_def
          float_div_int_def float_div_def int_to_float_exact
          round_double_claim_gflops round_double_claim_gflopss round_double_quarter)
  have fl: "section_flops \<lparr>timer = ''loop_x_0'', ops = 2, memory_accesses = 1\<rparr> (prod_list [10, 10])
              = Inr (Finite 200)"
    by (simp add: section_flops_def int_to_float_exact)
  have tr: "section_traffic ?opr \<lparr>timer = ''loop_x_0'', ops = 2, memory_accesses = 1\<rparr>
              (prod_list [10, 10]) = 800"
    by (simp add: section_traffic_def ex_operator_def)
  have d1: "float_div_int (Finite 200) (10 ^ 9)
              = Inr (Finite (944473296573929 / 4722366482869645213696))"
    using giga by (simp add: float_div_int_def float_div_def round_double_claim_gflops)
  have d2: "float_div (Finite (944473296573929 / 4722366482869645213696))
              (Finite (1152921504606847 / 1152921504606846976))
            = Inr (Finite (1844674407370955 / 9223372036854775808))"
    by (simp add: float_div_def round_double_claim_gflopss)
  have lt: "(1844674407370955 / 9223372036854775808 :: real) < 200 / 10 ^ 9 / (1 / 1000)"
    by simp
  from performance_metrics [OF h1 h2 h3 h4] ps fl tr d1 d2 lt round_double_milli
  show ?thesis by simp
qed

text \<open>
  C3, the claim as stated. On one section with \<open>ops = 3\<close>, \<open>memory = 1\<close>, 8-byte
  elements, the extents \<open>(2 ^ 53 + 1, 1)\<close> and the time 1, the integer
  \<open>ops * product of the iteration extents\<close> is 27021597764222979 and \<open>flops\<close> is
  27021597764222980; the traffic is \<open>8 * (2 ^ 53 + 1)\<close>, so that
  \<open>(ops * product) / (memory * product * 8)\<close> is \<open>3 / 8\<close>, a float, and the reported
  \<open>oi\<close> is the next float above it.
\<close>

theorem rounded_flops_counterexample:
  "section_flops \<lparr>timer = ''loop_x_0'', ops = 3, memory_accesses = 1\<rparr>
     (prod_list [9007199254740993, 1]) = Inr (Finite 27021597764222980) \<and>
   3 * prod_list [9007199254740993, 1] = (27021597764222979 :: int) \<and>
   profile_summary
     ((ex_operator NoValue)
        \<lparr>sections := [([ex_loop ex_x, ex_loop ex_y],
                        \<lparr>timer = ''loop_x_0'', ops = 3, memory_accesses = 1\<rparr>)]\<rparr>)
     [(ex_x, 9007199254740993), (ex_y, 1)]
     \<lparr>memory = (\<lambda>a. []), brk = 0, profiler_timings = [(''loop_x_0'', 1)]\<rparr>
   = Inr [(''main'', \<lparr>time = 1,
                      gflopss = Finite (226673591177743 / 8388608),
                      oi = Finite (6755399441055745 / 18014398509481984),
                      itershape = [9007199254740993, 1], datashape = [9007199254740993, 1]\<rparr>)] \<and>
   real_of_int (3 * prod_list [9007199254740993, 1]) /
     real_of_int (1 * prod_list [9007199254740993, 1] * itemsize Float64) = 3 / 8 \<and>
   round_double (3 / 8) = Finite (3 / 8) \<and>
   (3 / 8 :: real) < 6755399441055745 / 18014398509481984"
proof -
  have giga: "int_to_float (10 ^ 9) = Inr (Finite (10 ^ 9))"
    using int_to_float_exact [of "10 ^ 9"] by simp
  have fl: "int_to_float 27021597764222979 = Inr (Finite 27021597764222980)"
    using round_double_large_flops by (simp add: int_to_float_def)
  have tr: "int_to_float 72057594037927944 = Inr (Finite 72057594037927936)"
    using round_double_large_traffic by (simp add: int_to_float_def)
  have ps: "profile_summary
     ((ex_operator NoValue)
        \<lparr>sections := [([ex_loop ex_x, ex_loop ex_y],
                        \<lparr>timer = ''loop_x_0'', ops = 3, memory_accesses = 1\<rparr>)]\<rparr>)
     [(ex_x, 9007199254740993), (ex_y, 1)]
     \<lparr>memory = (\<lambda>a. []), brk = 0, profiler_timings = [(''loop_x_0'', 1)]\<rparr>
   = Inr [(''main'', \<lparr>time = 1,
                      gflopss = Finite (226673591177743 / 8388608),
                      oi = Finite (6755399441055745 / 18014398509481984),
                      itershape = [9007199254740993, 1], datashape = [9007199254740993, 1]\<rparr>)]"
    using giga fl tr
    by (simp add: ex_operator_def ex_loop_def ex_x_def ex_y_def profile_summary_def
          section_entry_def section_flops_def section_traffic_def data_extent_def Let_def
          float_div_int_def float_div_def
          round_double_large_oi round_double_large_gflops round_double_large_gflopss)
  have sf: "section_flops \<lparr>timer = ''loop_x_0'', ops = 3, memory_accesses = 1\<rparr>
     (prod_list [9007199254740993, 1]) = Inr (Finite 27021597764222980)"
    using fl by (simp add: section_flops_def)
  have r38: "round_double (3 / 8) = Finite (3 / 8)"
    using round_double_eval [of "- 2" "3 / 8" 6755399441055744]
    by (simp add: round_half_even_def)
  from ps sf r38 show ?thesis by simp
qed

text \<open>
  C4. The keyword arguments have distinct names, and every keyword value under the name
  of a data parameter has a shape. If one of them has a shape that differs from the
  declared shape of the parameter, binding raises \<open>InvalidArgument\<close>: the override loop
  does, \<open>arguments\<close> does, and \<open>apply\<close> does, with the machine as it was, so nothing was
  bound further and the native routine did not run. If all of them have the declared
  shape, the override loop succeeds and the mapping then holds, under the name of every
  overridden data parameter, the supplied value itself, with all other entries and
  the order of the keys unchanged.
\<close>

theorem keyword_override_shape:
  assumes "distinct (map fst kwargs)"
    and "\<forall>(k, v) \<in> set kwargs.
           (\<exists>f. map_of (initial_arguments opr) k = Some (Symbolic f)) \<longrightarrow> shape_attr v \<noteq> None"
  shows "((\<exists>(k, v) \<in> set kwargs. \<exists>f. map_of (initial_arguments opr) k = Some (Symbolic f) \<and>
              shape_attr v \<noteq> Some (sd_shape f)) \<longrightarrow>
            overrides kwargs (initial_arguments opr) = Inl InvalidArgument \<and>
            bind_arguments opr args kwargs = Inl InvalidArgument \<and>
            operator_arguments opts opr args kwargs m = (Inl InvalidArgument, m) \<and>
            operator_apply opts opr args kwargs m = (Inl InvalidArgument, m)) \<and>
         ((\<forall>(k, v) \<in> set kwargs. \<forall>f. map_of (initial_arguments opr) k = Some (Symbolic f) \<longrightarrow>
              shape_attr v = Some (sd_shape f)) \<longrightarrow>
            (\<exists>arguments. overrides kwargs (initial_arguments opr) = Inr arguments \<and>
               map fst arguments = map fst (initial_arguments opr) \<and>
               (\<forall>k. map_of arguments k =
                  (if (\<exists>f. map_of (initial_arguments opr) k = Some (Symbolic f)) \<and>
                      map_of kwargs k \<noteq> None
                   then map_of kwargs k else map_of (initial_arguments opr) k))))"
proof (intro conjI impI)
  let ?A = "initial_arguments opr"
  let ?o = "filter (\<lambda>arg. \<exists>f. map_of ?A (fst arg) = Some (Symbolic f)) kwargs"
  have dA: "distinct (map fst ?A)"
    by (simp add: initial_arguments_def distinct_OrderedDict)
  have ov: "overrides kwargs ?A = override_loop ?o ?A"
    using overrides_o_vals [OF assms(1) dA] .
  have do: "distinct (map fst ?o)"
    using assms(1) by (simp add: distinct_map_filter)
  {
    assume bad: "\<exists>(k, v) \<in> set kwargs. \<exists>f. map_of ?A k = Some (Symbolic f) \<and>
              shape_attr v \<noteq> Some (sd_shape f)"
    have p2: "\<forall>(k, v) \<in> set ?o. \<exists>f. map_of ?A k = Some (Symbolic f) \<and> shape_attr v \<noteq> None"
      using assms(2) by auto
    have p3: "\<exists>(k, v) \<in> set ?o. \<exists>f. map_of ?A k = Some (Symbolic f) \<and>
              shape_attr v \<noteq> Some (sd_shape f)"
      using bad by auto
    from override_loop_mismatch [OF do p2 p3] ov
    show o: "overrides kwargs ?A = Inl InvalidArgument" by simp
    then show b: "bind_arguments opr args kwargs = Inl InvalidArgument"
      by (simp add: bind_arguments_def Let_def)
    then show a: "operator_arguments opts opr args kwargs m = (Inl InvalidArgument, m)"
      by (simp add: operator_arguments_def)
    then show "operator_apply opts opr args kwargs m = (Inl InvalidArgument, m)"
      by (simp add: operator_apply_def)
  }
  {
    assume good: "\<forall>(k, v) \<in> set kwargs. \<forall>f. map_of ?A k = Some (Symbolic f) \<longrightarrow>
              shape_attr v = Some (sd_shape f)"
    have p2: "\<forall>(k, v) \<in> set ?o. \<exists>f. map_of ?A k = Some (Symbolic f) \<and>
                shape_attr v = Some (sd_shape f)"
      using good by auto
    from override_loop_match [OF do p2] ov
    have res: "overrides kwargs ?A = Inr (dict_update ?A ?o)" by simp
    have sub: "fst ` set ?o \<subseteq> fst ` set ?A"
      by (auto simp: image_iff dest!: map_of_SomeD) force
    have keys: "map fst (dict_update ?A ?o) = map fst ?A"
      unfolding dict_update_def by (rule map_fst_foldl_update_subset [OF sub])
    have look: "map_of (dict_update ?A ?o) k =
                  (if (\<exists>f. map_of ?A k = Some (Symbolic f)) \<and> map_of kwargs k \<noteq> None
                   then map_of kwargs k else map_of ?A k)" for k
    proof -
      have "distinct (map fst (rev ?o))" using do by (simp add: rev_map [symmetric])
      then have "map_of (rev ?o) = map_of ?o"
        using do by (intro map_of_inject_set [THEN iffD2]) auto
      then have 1: "map_of (dict_update ?A ?o) k = (map_of ?A ++ map_of ?o) k"
        by (simp add: dict_update_def map_of_foldl_update)
      have 2: "map_of ?o k = (if \<exists>f. map_of ?A k = Some (Symbolic f) then map_of kwargs k else None)"
        by (rule map_of_filter_key)
      from 1 2 show ?thesis
        by (auto simp: map_add_def split: option.splits)
    qed
    from res keys look
    show "\<exists>arguments. overrides kwargs ?A = Inr arguments \<and>
               map fst arguments = map fst ?A \<and>
               (\<forall>k. map_of arguments k =
                  (if (\<exists>f. map_of ?A k = Some (Symbolic f)) \<and> map_of kwargs k \<noteq> None
                   then map_of kwargs k else map_of ?A k))"
      by blast
  }
qed


theorem keyword_override_shape_witness:
  "operator_apply ex_options (ex_operator NoValue) [] [(''u'', Symbolic (ex_u [10, 21] 5))] ex_machine
     = (Inl InvalidArgument, ex_machine) \<and>
   overrides [(''u'', Symbolic (ex_u [10, 20] 5))] (initial_arguments (ex_operator NoValue))
     = Inr [(''u'', Symbolic (ex_u [10, 20] 5)), (''x'', DimensionArg ex_x),
            (''y'', DimensionArg ex_y), (''x_block'', DimensionArg ex_x_block)]"
  using keyword_override_shape
          [where kwargs = "[(''u'', Symbolic (ex_u [10, 21] 5))]" and opr = "ex_operator NoValue"
             and args = "[]" and opts = ex_options and m = ex_machine]
        keyword_override_shape
          [where kwargs = "[(''u'', Symbolic (ex_u [10, 20] 5))]" and opr = "ex_operator NoValue"
             and args = "[]" and opts = ex_options and m = ex_machine]
  by (simp add: ex_operator_def ex_u_def ex_x_def ex_y_def ex_x_block_def initial_arguments_def
        OrderedDict_def overrides_def)

text \<open>
  C5, as the code has it. A fixed value counts as supplied when it is not zero, since
  the source tests \<^verbatim>\<open>if i.value:\<close>. Let binding succeed for an operator whose
  parameters have distinct names and list the data before the dimensions, and let
  \<open>b\<close> be one of its blocking parameters, declared once, itself a parameter, not
  named by a positional argument, and governed by a dimension that is not a blocking
  parameter. Then the governing dimension has a resolved extent \<open>ext\<close> (its limit in
  \<open>dim_sizes\<close>, or else its declared size), and: if the loop engine supplied the non-zero
  fixed value \<open>v\<close>, the parameter is bound to \<open>v\<close> in the argument mapping and in the
  sizes, \<open>maybe_autotune\<close> is off and \<open>arguments\<close> returns without a single native
  run; if it supplied \<open>None\<close> or 0, the parameter is bound to \<open>ext\<close>, and when
  autotuning was requested and is still on the mapping is handed to the autotuner.
\<close>

theorem blocking_parameter_binding:
  assumes "bind_arguments opr args kwargs = Inr (arguments, dim_sizes, maybe_autotune)"
    and "b \<in> set (dle_arguments opr)"
    and "distinct (map argument (dle_arguments opr))"
    and "original_dim b \<notin> argument ` set (dle_arguments opr)"
    and "distinct (map param_name (parameters opr))"
    and "parameters opr = map DataParam fs @ map DimParam ds"
    and "argument b \<in> set ds"
    and "dim_name (argument b) \<notin> param_name ` set args"
  shows "\<exists>ext.
           (case map_of dim_sizes (original_dim b) of
              Some n \<Rightarrow> Some n | None \<Rightarrow> dim_size (original_dim b)) = Some ext \<and>
           (\<forall>v. blk_value b = Fixed v \<and> v \<noteq> 0 \<longrightarrow>
              map_of arguments (dim_name (argument b)) = Some (IntArg v) \<and>
              map_of dim_sizes (argument b) = Some v \<and>
              \<not> maybe_autotune \<and>
              operator_arguments opts opr args kwargs m =
                (Inr (dict_update arguments (extra_arguments opr), dim_sizes), m)) \<and>
           (blk_value b = NoValue \<or> blk_value b = Fixed 0 \<longrightarrow>
              map_of arguments (dim_name (argument b)) = Some (IntArg ext) \<and>
              map_of dim_sizes (argument b) = Some ext) \<and>
           (maybe_autotune \<longrightarrow>
              autotune_requested kwargs \<and>
              operator_arguments opts opr args kwargs m =
                (case autotune opts opr arguments m of
                   (Inl e, m') \<Rightarrow> (Inl e, m')
                 | (Inr arguments', m') \<Rightarrow>
                     (Inr (dict_update arguments' (extra_arguments opr), dim_sizes), m')))"
proof -
  from insert_sizes_Inr_bind [OF assms(1)] obtain A1 A2 ds2 ds3 dle where
    ov: "overrides kwargs (initial_arguments opr) = Inr A1"
    and tr: "traverse_positional kwargs
       (zip (symbolic_values (map snd A1)) (if length args = 0 then parameters opr else args))
       A1 [] = Inr (A2, ds2)"
    and bs: "block_sizes (dle_arguments opr) ds3 [] (autotune_requested kwargs) = Inr (dle, maybe_autotune)"
    and ds: "dim_sizes = dict_update ds3 dle"
    and ins: "insert_sizes (dimension_values (map snd A2)) dim_sizes A2 = Inr arguments"
    by blast
  from block_sizes_entry [OF bs assms(2,3)] obtain ext where
    ext3: "(case map_of ds3 (original_dim b) of
             Some n \<Rightarrow> Some n | None \<Rightarrow> dim_size (original_dim b)) = Some ext"
    and dle: "map_of dle (argument b) = Some (fst (block_size (blk_value b) ext True))"
    by blast
  from block_sizes_keys [OF bs] have keys: "fst ` set dle = argument ` set (dle_arguments opr)"
    and ddle: "distinct (map fst dle)" by auto
  have look: "map_of dim_sizes = map_of ds3 ++ map_of dle"
    unfolding ds by (rule map_of_dict_update [OF ddle])
  from assms(4) keys have "map_of dle (original_dim b) = None"
    by (simp add: map_of_eq_None_iff)
  with look have "map_of dim_sizes (original_dim b) = map_of ds3 (original_dim b)"
    by (simp add: map_add_def)
  with ext3 have ext: "(case map_of dim_sizes (original_dim b) of
              Some n \<Rightarrow> Some n | None \<Rightarrow> dim_size (original_dim b)) = Some ext" by simp
  from look dle have size: "map_of dim_sizes (argument b) = Some (fst (block_size (blk_value b) ext True))"
    by (simp add: map_add_def)
  note kept = unbound_dimension_kept [OF assms(5,6,7) ov tr assms(8)]
  from kept(1) have "DimensionArg (argument b) \<in> set (map snd A2)"
    by (auto dest!: map_of_SomeD simp: image_iff) force
  then have mem: "argument b \<in> set (dimension_values (map snd A2))"
    by (simp add: dimension_values_iff)
  from assms(5,6) have "distinct (map dim_name ds)" by (simp add: comp_def)
  then have inj: "inj_on dim_name (set ds)" by (simp add: distinct_map)
  have uniq: "\<forall>d' \<in> set (dimension_values (map snd A2)).
                dim_name d' = dim_name (argument b) \<longrightarrow> d' = argument b"
  proof (intro ballI impI)
    fix d' assume "d' \<in> set (dimension_values (map snd A2))" and eq: "dim_name d' = dim_name (argument b)"
    then have "DimensionArg d' \<in> snd ` set A2" by (simp add: dimension_values_iff)
    with kept(2) have "d' \<in> set ds" by blast
    with inj assms(7) eq show "d' = argument b" by (auto dest: inj_onD)
  qed
  from insert_sizes_entry [OF ins mem uniq] size
  have arg: "map_of arguments (dim_name (argument b)) =
               Some (IntArg (fst (block_size (blk_value b) ext True)))" by auto
  have fixed: "map_of arguments (dim_name (argument b)) = Some (IntArg v) \<and>
              map_of dim_sizes (argument b) = Some v \<and> \<not> maybe_autotune \<and>
              operator_arguments opts opr args kwargs m =
                (Inr (dict_update arguments (extra_arguments opr), dim_sizes), m)"
    if "blk_value b = Fixed v \<and> v \<noteq> 0" for v
  proof -
    from that block_sizes_fixed [OF bs assms(2)] have off: "\<not> maybe_autotune" by blast
    with assms(1) have "operator_arguments opts opr args kwargs m =
                (Inr (dict_update arguments (extra_arguments opr), dim_sizes), m)"
      by (simp add: operator_arguments_def)
    with that arg size off show ?thesis by simp
  qed
  have dflt: "map_of arguments (dim_name (argument b)) = Some (IntArg ext) \<and>
              map_of dim_sizes (argument b) = Some ext"
    if "blk_value b = NoValue \<or> blk_value b = Fixed 0"
    using that arg size by auto
  have tune: "autotune_requested kwargs \<and>
              operator_arguments opts opr args kwargs m =
                (case autotune opts opr arguments m of
                   (Inl e, m') \<Rightarrow> (Inl e, m')
                 | (Inr arguments', m') \<Rightarrow>
                     (Inr (dict_update arguments' (extra_arguments opr), dim_sizes), m'))"
    if maybe_autotune
    using that assms(1) block_sizes_requested [OF bs]
    by (simp add: operator_arguments_def)
  from ext fixed dflt tune show ?thesis by blast
qed


theorem blocking_parameter_binding_witness:
  "bind_arguments (ex_operator (Fixed 16)) [] [(''autotune'', IntArg 1)]
   = Inr ([(''u'', Array \<lparr>buffer = 0, nd_shape = [10, 20]\<rparr>), (''x'', IntArg 10),
           (''y'', IntArg 20), (''x_block'', IntArg 16)],
          [(ex_x, 10), (ex_y, 20), (ex_x_block, 16)], False) \<and>
   operator_arguments ex_options (ex_operator (Fixed 16)) [] [(''autotune'', IntArg 1)] ex_machine
   = (Inr ([(''u'', Array \<lparr>buffer = 0, nd_shape = [10, 20]\<rparr>), (''x'', IntArg 10),
            (''y'', IntArg 20), (''x_block'', IntArg 16), (''timings'', TimerStruct)],
           [(ex_x, 10), (ex_y, 20), (ex_x_block, 16)]), ex_machine) \<and>
   bind_arguments (ex_operator NoValue) [] [(''autotune'', IntArg 1)]
   = Inr ([(''u'', Array \<lparr>buffer = 0, nd_shape = [10, 20]\<rparr>), (''x'', IntArg 10),
           (''y'', IntArg 20), (''x_block'', IntArg 10)],
          [(ex_x, 10), (ex_y, 20), (ex_x_block, 10)], True)"
  using blocking_parameter_binding
    [where opr = "ex_operator (Fixed 16)" and args = "[]" and kwargs = "[(''autotune'', IntArg 1)]"
       and arguments = "[(''u'', Array \<lparr>buffer = 0, nd_shape = [10, 20]\<rparr>), (''x'', IntArg 10),
           (''y'', IntArg 20), (''x_block'', IntArg 16)]"
       and dim_sizes = "[(ex_x, 10), (ex_y, 20), (ex_x_block, 16)]" and maybe_autotune = False
       and b = "\<lparr>argument = ex_x_block, original_dim = ex_x, iteration = ex_loop ex_x,
                  blk_value = Fixed 16\<rparr>"
       and fs = "[ex_u [10, 20] 0]" and ds = "[ex_x, ex_y, ex_x_block]"
       and opts = ex_options and m = ex_machine]
    blocking_parameter_binding
    [where opr = "ex_operator NoValue" and args = "[]" and kwargs = "[(''autotune'', IntArg 1)]"
       and arguments = "[(''u'', Array \<lparr>buffer = 0, nd_shape = [10, 20]\<rparr>), (''x'', IntArg 10),
           (''y'', IntArg 20), (''x_block'', IntArg 10)]"
       and dim_sizes = "[(ex_x, 10), (ex_y, 20), (ex_x_block, 10)]" and maybe_autotune = True
       and b = "\<lparr>argument = ex_x_block, original_dim = ex_x, iteration = ex_loop ex_x,
                  blk_value = NoValue\<rparr>"
       and fs = "[ex_u [10, 20] 0]" and ds = "[ex_x, ex_y, ex_x_block]"
       and opts = ex_options and m = ex_machine]
  by (simp add: ex_simps)

theorem zero_block_value_counterexample:
  "blk_value (hd (dle_arguments (ex_operator (Fixed 0)))) = Fixed 0 \<and>
   bind_arguments (ex_operator (Fixed 0)) [] [(''autotune'', IntArg 1)]
   = Inr ([(''u'', Array \<lparr>buffer = 0, nd_shape = [10, 20]\<rparr>), (''x'', IntArg 10),
           (''y'', IntArg 20), (''x_block'', IntArg 10)],
          [(ex_x, 10), (ex_y, 20), (ex_x_block, 10)], True) \<and>
   fst (operator_arguments ex_options (ex_operator (Fixed 0)) [] [(''autotune'', IntArg 1)] ex_machine)
   = Inr ([(''u'', Array \<lparr>buffer = 0, nd_shape = [10, 20]\<rparr>), (''x'', IntArg 10),
           (''y'', IntArg 20), (''x_block'', IntArg 8), (''timings'', TimerStruct)],
          [(ex_x, 10), (ex_y, 20), (ex_x_block, 10)])"
  by (simp add: ex_simps autotune_def array_copy_def attempted_blocksizes_def
        square_blocksizes_def blocking_mapper_def squeezable_def)



text \<open>
  C7. Under the same conditions on the operator and the mapping, if every candidate
  is illegal the search does not return normally: after the outputs were cloned no
  candidate is run, \<^verbatim>\<open>min\<close> is applied to the empty dictionary of timings and its
  \<open>ValueError\<close> leaves \<^verbatim>\<open>_autotune\<close>, \<^verbatim>\<open>arguments\<close> and \<^verbatim>\<open>apply\<close>; the caller's
  mapping is never written.
\<close>

theorem autotune_fails_without_legal_candidate:
  assumes "has_applied_blocking opr"
    and "fst ` set (blocking_mapper opr) \<subseteq> fst ` set arguments"
    and "\<forall>b \<in> set (dle_arguments opr). dim_name (original_dim b) \<notin> searched_names opr"
    and "\<forall>(k, v) \<in> set arguments. k \<in> set (output_fields opr) \<longrightarrow> (\<exists>a. v = Array a)"
    and "attempted_blocksizes opts opr = Inr blocksizes"
    and "\<forall>c \<in> set blocksizes. exceeds_extent (blocking_mapper opr) arguments c"
  shows "\<exists>m'. autotune opts opr arguments m = (Inl ValueError, m') \<and>
              profiler_timings m' = profiler_timings m \<and>
              (bind_arguments opr args kwargs = Inr (arguments, dim_sizes, True) \<longrightarrow>
                 operator_arguments opts opr args kwargs m = (Inl ValueError, m') \<and>
                 operator_apply opts opr args kwargs m = (Inl ValueError, m'))"
proof -
  from autotune_result [OF assms(1-5), of m] obtain A0 m1 timings m' where
    r: "clone_outputs (output_fields opr) arguments arguments m = (Inr A0, m1)"
    "trial_loop opts opr blocksizes A0 [] m1 = (Inr timings, m')"
    "map fst timings =
       rev (remdups (rev (filter (\<lambda>c. \<not> exceeds_extent (blocking_mapper opr) arguments c)
                            blocksizes)))"
    "timings = [] \<longrightarrow> autotune opts opr arguments m = (Inl ValueError, m')"
    by blast
  from assms(6) have "filter (\<lambda>c. \<not> exceeds_extent (blocking_mapper opr) arguments c) blocksizes = []"
    by (auto simp: filter_empty_conv)
  with r(3) have "timings = []" by simp
  with r(4) have a: "autotune opts opr arguments m = (Inl ValueError, m')" by simp
  from clone_outputs_result [OF assms(4) subset_refl, of m] r(1)
  have k0: "map fst A0 = map fst arguments"
    and f0: "\<forall>k. k \<notin> set (output_fields opr) \<or> k \<notin> fst ` set arguments \<longrightarrow>
               map_of A0 k = map_of arguments k"
    and t1: "profiler_timings m1 = profiler_timings m"
    by auto
  have gov': "\<forall>b \<in> snd ` set (blocking_mapper opr). dim_name (original_dim b) \<notin> searched_names opr"
    using assms(3) blocking_mapper_values [of opr] by blast
  then have g1: "\<forall>b \<in> snd ` set (blocking_mapper opr).
      dim_name (original_dim b) \<notin> fst ` set (blocking_mapper opr) \<union> set (squeezable opr) \<union> {s_name opr}"
    by (auto simp: searched_names_def)
  have ck: "\<forall>c \<in> set blocksizes. fst ` set c \<subseteq> fst ` set (blocking_mapper opr)"
  proof
    fix c assume "c \<in> set blocksizes"
    from attempted_blocksizes_keys [OF assms(5) this]
    have "set (map fst c) = set (map fst (blocking_mapper opr))" by simp
    then show "fst ` set c \<subseteq> fst ` set (blocking_mapper opr)" by simp
  qed
  from k0 have "fst ` set A0 = fst ` set arguments" by (metis list.set_map)
  with assms(2) have i1: "fst ` set (blocking_mapper opr) \<subseteq> fst ` set A0" by simp
  have i2: "\<forall>b \<in> snd ` set (blocking_mapper opr).
         map_of A0 (dim_name (original_dim b)) = map_of arguments (dim_name (original_dim b))"
    using gov' f0 by (auto simp: searched_names_def)
  from trial_loop_all_illegal [OF g1 ck i1 i2 assms(6), of opts "[]" m1] r(2)
  have "m' = m1" by simp
  with t1 have t: "profiler_timings m' = profiler_timings m" by simp
  have "operator_arguments opts opr args kwargs m = (Inl ValueError, m') \<and>
        operator_apply opts opr args kwargs m = (Inl ValueError, m')"
    if "bind_arguments opr args kwargs = Inr (arguments, dim_sizes, True)"
    using that a by (simp add: operator_arguments_def operator_apply_def)
  with a t show ?thesis by blast
qed

theorem autotune_fails_without_legal_candidate_witness:
  "attempted_blocksizes (ex_options\<lparr>at_blocksize := [16, 32]\<rparr>) (ex_operator NoValue)
   = Inr [[(''x_block'', 16)], [(''x_block'', 32)]] \<and>
   exceeds_extent (blocking_mapper (ex_operator NoValue))
     [(''u'', Array \<lparr>buffer = 0, nd_shape = [10, 20]\<rparr>), (''x'', IntArg 10), (''y'', IntArg 20),
      (''x_block'', IntArg 10)] [(''x_block'', 16)] \<and>
   bind_arguments (ex_operator NoValue) [] [(''autotune'', IntArg 1)]
   = Inr ([(''u'', Array \<lparr>buffer = 0, nd_shape = [10, 20]\<rparr>), (''x'', IntArg 10),
           (''y'', IntArg 20), (''x_block'', IntArg 10)],
          [(ex_x, 10), (ex_y, 20), (ex_x_block, 10)], True) \<and>
   fst (operator_apply (ex_options\<lparr>at_blocksize := [16, 32]\<rparr>) (ex_operator NoValue) []
          [(''autotune'', IntArg 1)] ex_machine) = Inl ValueError"
  using autotune_fails_without_legal_candidate
    [where opr = "ex_operator NoValue" and opts = "ex_options\<lparr>at_blocksize := [16, 32]\<rparr>"
       and m = ex_machine and args = "[]" and kwargs = "[(''autotune'', IntArg 1)]"
       and arguments = "[(''u'', Array \<lparr>buffer = 0, nd_shape = [10, 20]\<rparr>), (''x'', IntArg 10),
                         (''y'', IntArg 20), (''x_block'', IntArg 10)]"
       and dim_sizes = "[(ex_x, 10), (ex_y, 20), (ex_x_block, 10)]"
       and blocksizes = "[[(''x_block'', 16)], [(''x_block'', 32)]]"]
  by (simp add: ex_simps autotune_def array_copy_def attempted_blocksizes_def
        square_blocksizes_def blocking_mapper_def squeezable_def exceeds_extent_def
        searched_names_def operator_apply_def)

text \<open>
  C9. Besides the conditions of C1 on the operator and the mapping, let the keys of the
  caller's mapping be distinct and let the native routine write only to the arrays it
  receives under the names of the outputs. Then cloning succeeds and gives every
  output bound to an allocated array a copy in a buffer that did not exist before,
  with the same shape and contents, and leaves every other entry as it was; the trial
  executions run on this private mapping, and when the search returns, normally or
  not, every buffer that existed before the search holds what it held. If the search
  returns normally, the caller's mapping has the same keys in the same order, every
  entry that is not a blocking parameter is unchanged, and every blocking parameter
  holds the value of the legal candidate with the least recorded time (the first such
  one); otherwise no candidate was legal and the search raised \<open>ValueError\<close>.
\<close>

theorem autotune_keeps_caller_state:
  assumes "has_applied_blocking opr"
    and "distinct (map fst arguments)"
    and "fst ` set (blocking_mapper opr) \<subseteq> fst ` set arguments"
    and "\<forall>b \<in> set (dle_arguments opr). dim_name (original_dim b) \<notin> searched_names opr"
    and "\<forall>(k, v) \<in> set arguments. k \<in> set (output_fields opr) \<longrightarrow> (\<exists>a. v = Array a)"
    and "attempted_blocksizes opts opr = Inr blocksizes"
    and "\<forall>A mm a. map fst A = map fst (dict_update arguments (extra_arguments opr)) \<longrightarrow>
           (\<forall>k arr. (k, Array arr) \<in> set A \<longrightarrow> k \<in> set (output_fields opr) \<longrightarrow> buffer arr \<noteq> a) \<longrightarrow>
           memory (cfunction opr (map snd A) mm) a = memory mm a"
  shows "\<exists>at_arguments m1 r m'.
           clone_outputs (output_fields opr) arguments arguments m = (Inr at_arguments, m1) \<and>
           (\<forall>k a. k \<in> set (output_fields opr) \<and> map_of arguments k = Some (Array a) \<and>
                  buffer a < brk m \<longrightarrow>
              (\<exists>a'. map_of at_arguments k = Some (Array a') \<and> nd_shape a' = nd_shape a \<and>
                    brk m \<le> buffer a' \<and> memory m1 (buffer a') = memory m (buffer a))) \<and>
           (\<forall>k. k \<notin> set (output_fields opr) \<longrightarrow> map_of at_arguments k = map_of arguments k) \<and>
           autotune opts opr arguments m = (r, m') \<and>
           (\<forall>a < brk m. memory m' a = memory m a) \<and>
           (r = Inl ValueError \<or>
            (\<exists>arguments' timings best j t.
               r = Inr arguments' \<and>
               trial_loop opts opr blocksizes at_arguments [] m1 = (Inr timings, m') \<and>
               j < length timings \<and> timings ! j = (best, t) \<and>
               (\<forall>i<length timings. t \<le> snd (timings ! i)) \<and> (\<forall>i<j. t < snd (timings ! i)) \<and>
               \<not> exceeds_extent (blocking_mapper opr) arguments best \<and>
               map fst arguments' = map fst arguments \<and>
               (\<forall>k. map_of arguments' k =
                  (if k \<in> fst ` set (blocking_mapper opr)
                   then map_option IntArg (map_of best k) else map_of arguments k))))"
proof -
  let ?out = "output_fields opr"
  let ?legal = "\<lambda>c. \<not> exceeds_extent (blocking_mapper opr) arguments c"
  from autotune_result [OF assms(1,3,4,5,6), of m] obtain A0 m1 timings m' where
    cl: "clone_outputs ?out arguments arguments m = (Inr A0, m1)"
    and tl: "trial_loop opts opr blocksizes A0 [] m1 = (Inr timings, m')"
    and tk: "map fst timings = rev (remdups (rev (filter ?legal blocksizes)))"
    and empty: "timings = [] \<longrightarrow> autotune opts opr arguments m = (Inl ValueError, m')"
    and nonempty: "timings \<noteq> [] \<longrightarrow>
              (\<exists>best j t arguments'.
                 j < length timings \<and> timings ! j = (best, t) \<and>
                 (\<forall>i<j. t < snd (timings ! i)) \<and> (\<forall>i<length timings. t \<le> snd (timings ! i)) \<and>
                 autotune opts opr arguments m = (Inr arguments', m') \<and>
                 map fst arguments' = map fst arguments \<and>
                 (\<forall>k. map_of arguments' k =
                    (if k \<in> fst ` set (blocking_mapper opr)
                     then map_option IntArg (map_of best k) else map_of arguments k)))"
    by blast
  from clone_outputs_result [OF assms(5) subset_refl, of m] cl
  have k0: "map fst A0 = map fst arguments"
    and f0: "\<forall>k. k \<notin> set ?out \<or> k \<notin> fst ` set arguments \<longrightarrow> map_of A0 k = map_of arguments k"
    and fresh: "\<forall>k \<in> fst ` set arguments \<inter> set ?out.
                 \<exists>arr. map_of A0 k = Some (Array arr) \<and> brk m \<le> buffer arr"
    and mem1: "\<forall>a < brk m. memory m1 a = memory m a"
    by auto
  have copies: "\<forall>k a. k \<in> set ?out \<and> map_of arguments k = Some (Array a) \<and> buffer a < brk m \<longrightarrow>
              (\<exists>a'. map_of A0 k = Some (Array a') \<and> nd_shape a' = nd_shape a \<and>
                    brk m \<le> buffer a' \<and> memory m1 (buffer a') = memory m (buffer a))"
  proof (intro allI impI)
    fix k a assume h: "k \<in> set ?out \<and> map_of arguments k = Some (Array a) \<and> buffer a < brk m"
    then have "(k, Array a) \<in> set arguments" by (auto dest: map_of_SomeD)
    from clone_outputs_copy [OF assms(5) subset_refl assms(2) cl this] h
    show "\<exists>a'. map_of A0 k = Some (Array a') \<and> nd_shape a' = nd_shape a \<and>
                brk m \<le> buffer a' \<and> memory m1 (buffer a') = memory m (buffer a)" by blast
  qed
  have others: "\<forall>k. k \<notin> set ?out \<longrightarrow> map_of A0 k = map_of arguments k"
    using f0 by blast
  from k0 assms(2) have d0: "distinct (map fst A0)" by simp
  from k0 have ks0: "fst ` set A0 = fst ` set arguments" by (metis list.set_map)
  have J: "\<forall>k arr. (k, Array arr) \<in> set A0 \<longrightarrow> k \<in> set ?out \<longrightarrow> brk m \<le> buffer arr"
  proof (intro allI impI)
    fix k arr assume mem: "(k, Array arr) \<in> set A0" and o: "k \<in> set ?out"
    from mem d0 have look: "map_of A0 k = Some (Array arr)" by (simp add: map_of_is_SomeI)
    from mem have "k \<in> fst ` set A0" by force
    with ks0 o fresh obtain arr' where "map_of A0 k = Some (Array arr')" "brk m \<le> buffer arr'"
      by blast
    with look show "brk m \<le> buffer arr" by simp
  qed
  from trial_loop_memory [OF assms(7) tl _ J mem1] k0
  have frame: "\<forall>a < brk m. memory m' a = memory m a" by simp
  show ?thesis
  proof (cases "timings = []")
    case True
    with empty have "autotune opts opr arguments m = (Inl ValueError, m')" by simp
    with cl copies others frame show ?thesis by blast
  next
    case False
    with nonempty obtain best j t arguments' where
      b: "j < length timings" "timings ! j = (best, t)"
      "\<forall>i<j. t < snd (timings ! i)" "\<forall>i<length timings. t \<le> snd (timings ! i)"
      "autotune opts opr arguments m = (Inr arguments', m')"
      "map fst arguments' = map fst arguments"
      "\<forall>k. map_of arguments' k =
                    (if k \<in> fst ` set (blocking_mapper opr)
                     then map_option IntArg (map_of best k) else map_of arguments k)"
      by blast
    from b(1,2) have "best \<in> set (map fst timings)"
      by (metis fst_conv length_map nth_map nth_mem)
    then have "?legal best" unfolding tk by auto
    with cl copies others frame tl b show ?thesis by blast
  qed
qed


theorem autotune_keeps_caller_state_witness:
  "fst (autotune ex_options (ex_operator NoValue)
          [(''u'', Array \<lparr>buffer = 0, nd_shape = [64, 20]\<rparr>), (''x'', IntArg 64), (''y'', IntArg 20),
           (''x_block'', IntArg 64)] ex_machine)
   = Inr [(''u'', Array \<lparr>buffer = 0, nd_shape = [64, 20]\<rparr>), (''x'', IntArg 64), (''y'', IntArg 20),
          (''x_block'', IntArg 16)] \<and>
   memory (snd (autotune ex_options (ex_operator NoValue)
          [(''u'', Array \<lparr>buffer = 0, nd_shape = [64, 20]\<rparr>), (''x'', IntArg 64), (''y'', IntArg 20),
           (''x_block'', IntArg 64)] ex_machine)) 0 = memory ex_machine 0 \<and>
   memory (snd (autotune ex_options (ex_operator NoValue)
          [(''u'', Array \<lparr>buffer = 0, nd_shape = [64, 20]\<rparr>), (''x'', IntArg 64), (''y'', IntArg 20),
           (''x_block'', IntArg 64)] ex_machine)) 1 = [1]"
proof -
  let ?opr = "ex_operator NoValue"
  let ?args = "[(''u'', Array \<lparr>buffer = 0, nd_shape = [64, 20]\<rparr>), (''x'', IntArg 64),
                (''y'', IntArg 20), (''x_block'', IntArg 64)]"
  let ?cands = "[[(''x_block'', 8)], [(''x_block'', 16)], [(''x_block'', 32)], [(''x_block'', 128)]]"
  have h1: "has_applied_blocking ?opr" by (simp add: ex_operator_def)
  have h2: "distinct (map fst ?args)" by simp
  have h3: "fst ` set (blocking_mapper ?opr) \<subseteq> fst ` set ?args"
    by (simp add: blocking_mapper_def ex_operator_def ex_x_block_def OrderedDict_def)
  have h4: "\<forall>b \<in> set (dle_arguments ?opr). dim_name (original_dim b) \<notin> searched_names ?opr"
    by (simp add: searched_names_def blocking_mapper_def squeezable_def ex_operator_def
          ex_x_block_def ex_x_def ex_y_def ex_loop_def OrderedDict_def)
  have h5: "\<forall>(k, v) \<in> set ?args. k \<in> set (output_fields ?opr) \<longrightarrow> (\<exists>a. v = Array a)"
    by (simp add: ex_operator_def)
  have h6: "attempted_blocksizes ex_options ?opr = Inr ?cands"
    by (simp add: attempted_blocksizes_def square_blocksizes_def blocking_mapper_def
          ex_operator_def ex_options_def ex_x_block_def OrderedDict_def)
  have h7: "\<forall>A mm a. map fst A = map fst (dict_update ?args (extra_arguments ?opr)) \<longrightarrow>
           (\<forall>k arr. (k, Array arr) \<in> set A \<longrightarrow> k \<in> set (output_fields ?opr) \<longrightarrow> buffer arr \<noteq> a) \<longrightarrow>
           memory (cfunction ?opr (map snd A) mm) a = memory mm a"
  proof (intro allI impI)
    fix A :: arguments and mm a
    assume k: "map fst A = map fst (dict_update ?args (extra_arguments ?opr))"
      and o: "\<forall>k arr. (k, Array arr) \<in> set A \<longrightarrow> k \<in> set (output_fields ?opr) \<longrightarrow> buffer arr \<noteq> a"
    from k obtain v0 v1 v2 v3 v4 where A: "A = [(''u'', v0), (''x'', v1), (''y'', v2),
        (''x_block'', v3), (''timings'', v4)]"
      by (auto simp: dict_update_def extra_arguments_def OrderedDict_def ex_operator_def
            map_eq_Cons_conv)
    from o A have "\<forall>arr. v0 = Array arr \<longrightarrow> buffer arr \<noteq> a"
      by (simp add: ex_operator_def)
    then show "memory (cfunction ?opr (map snd A) mm) a = memory mm a"
      unfolding A by (cases v0; cases v3) (simp_all add: ex_operator_def)
  qed
  show ?thesis
    using autotune_keeps_caller_state [OF h1 h2 h3 h4 h5 h6 h7, of ex_machine]
    by (simp add: ex_simps autotune_def array_copy_def attempted_blocksizes_def
        square_blocksizes_def blocking_mapper_def squeezable_def)
qed

text \<open>
  C8. \<^verbatim>\<open>apply\<close> returns the performance summary, keyed by section name with the
  most expensive section renamed \<open>main\<close>, each entry carrying the time, the
  throughput, the operational intensity and the two shapes. \<^verbatim>\<open>__call__\<close> runs
  \<^verbatim>\<open>apply\<close> and drops its result: whatever the arguments, a call never returns a
  summary. On the sample operator, bound with no positional and no keyword argument,
  \<^verbatim>\<open>apply\<close> returns the summary of its one section and the call returns \<^verbatim>\<open>None\<close>.
\<close>

theorem call_returns_no_summary:
  "fst (operator_call opts opr args kwargs m) \<noteq> Inr (Some summary) \<and>
   fst (operator_apply ex_options (ex_operator NoValue) [] [] ex_machine)
   = Inr [(''main'', \<lparr>time = 1,
                      gflopss = Finite (944473296573929 / 2361183241434822606848),
                      oi = Finite (1 / 4),
                      itershape = [10, 20], datashape = [10, 20]\<rparr>)] \<and>
   fst (operator_call ex_options (ex_operator NoValue) [] [] ex_machine) = Inr None"
proof (intro conjI)
  show "fst (operator_call opts opr args kwargs m) \<noteq> Inr (Some summary)"
    by (auto simp: operator_call_def split: prod.splits sum.splits)
  have giga: "int_to_float (10 ^ 9) = Inr (Finite (10 ^ 9))"
    using int_to_float_exact [of "10 ^ 9"] by simp
  show a: "fst (operator_apply ex_options (ex_operator NoValue) [] [] ex_machine)
   = Inr [(''main'', \<lparr>time = 1,
                      gflopss = Finite (944473296573929 / 2361183241434822606848),
                      oi = Finite (1 / 4),
                      itershape = [10, 20], datashape = [10, 20]\<rparr>)]"
    using giga
    by (simp add: ex_simps operator_apply_def profile_summary_def section_entry_def
          section_flops_def section_traffic_def data_extent_def Let_def
          float_div_int_def float_div_def int_to_float_exact
          round_double_sample_gflops round_double_sample_gflopss round_double_quarter)
  then show "fst (operator_call ex_options (ex_operator NoValue) [] [] ex_machine) = Inr None"
    by (auto simp: operator_call_def split: prod.splits sum.splits)
qed



end
